theory Spec2Isabelle
  imports Main "HOL-Library.Sublist"
begin

section \<open>Section segmentation of the liturgical readings page\<close>

text \<open>
  The development embeds the segmentation core of \<^verbatim>\<open>get_liturgical_readings\<close>
  (\<^verbatim>\<open>backend/app.py\<close>, lines 38 to 113): the keyword table, the line classifier, the
  loop over the enumerated lines with its one-line lookahead, the close at end of input
  and the final ordering. The HTTP fetch and the HTML reduction that produce the list of
  lines are outside the embedding: the core is a function of the list \<^verbatim>\<open>lines\<close>.

  A Python \<^verbatim>\<open>str\<close> is a sequence of code points. Here a string is a \<^typ>\<open>char list\<close>
  and a \<^typ>\<open>char\<close> stands for the code point with the same number, so the embedding
  covers the code points below 256 (ASCII and Latin-1); the character classes below are
  those of Python on that range.
\<close>

subsection \<open>Python string operations\<close>

text \<open>\<^verbatim>\<open>c.isspace()\<close>, which is also the set of characters \<^verbatim>\<open>str.strip()\<close> removes:
  code points 9 to 13, 28 to 32, 133 and 160.\<close>

definition isspace :: "char \<Rightarrow> bool" where
  "isspace c = (let n = (of_char c :: nat) in
     (9 \<le> n \<and> n \<le> 13) \<or> (28 \<le> n \<and> n \<le> 32) \<or> n = 133 \<or> n = 160)"

text \<open>\<^verbatim>\<open>c.isdigit()\<close>: the decimal digits and the superscripts one, two and three.\<close>

definition isdigit :: "char \<Rightarrow> bool" where
  "isdigit c = (let n = (of_char c :: nat) in
     (48 \<le> n \<and> n \<le> 57) \<or> n = 178 \<or> n = 179 \<or> n = 185)"

text \<open>\<^verbatim>\<open>s.lower()\<close>: the letters A to Z and the Latin-1 capitals (192 to 222 without the
  multiplication sign 215) move up by 32; every other character stays.\<close>

definition lower_char :: "char \<Rightarrow> char" where
  "lower_char c = (let n = (of_char c :: nat) in
     if (65 \<le> n \<and> n \<le> 90) \<or> (192 \<le> n \<and> n \<le> 222 \<and> n \<noteq> 215)
     then char_of (n + 32) else c)"

definition lower :: "string \<Rightarrow> string" where
  "lower s = map lower_char s"

text \<open>\<^verbatim>\<open>s.strip()\<close>: leading and trailing whitespace removed.\<close>

definition strip :: "string \<Rightarrow> string" where
  "strip s = rev (dropWhile isspace (rev (dropWhile isspace s)))"

text \<open>\<^verbatim>\<open>sub in s\<close> on strings: \<^verbatim>\<open>sub\<close> occurs in \<^verbatim>\<open>s\<close> as a contiguous block.\<close>

fun contains :: "string \<Rightarrow> string \<Rightarrow> bool" where
  "contains sub [] = (sub = [])"
| "contains sub (c # s) = (prefix sub (c # s) \<or> contains sub s)"

text \<open>\<^verbatim>\<open>sep.join(xs)\<close>.\<close>

fun join :: "string \<Rightarrow> string list \<Rightarrow> string" where
  "join sep [] = []"
| "join sep [x] = x"
| "join sep (x # y # ys) = x @ sep @ join sep (y # ys)"

text \<open>\<^verbatim>\<open>s.replace("_", " ")\<close>, the only replacement the code makes: one character for
  one character.\<close>

definition replace_underscore :: "string \<Rightarrow> string" where
  "replace_underscore s = map (\<lambda>c. if c = CHR ''_'' then CHR '' '' else c) s"

text \<open>\<^verbatim>\<open>s.title()\<close>: a cased character is made upper case when the character before it
  is not cased (or there is none) and lower case otherwise. The code calls it on the
  section type names only, which are ASCII, so cased means a letter A to Z or a to z.\<close>

definition is_cased :: "char \<Rightarrow> bool" where
  "is_cased c = (let n = (of_char c :: nat) in
     (65 \<le> n \<and> n \<le> 90) \<or> (97 \<le> n \<and> n \<le> 122))"

definition upper_char :: "char \<Rightarrow> char" where
  "upper_char c = (let n = (of_char c :: nat) in
     if 97 \<le> n \<and> n \<le> 122 then char_of (n - 32) else c)"

fun title_from :: "bool \<Rightarrow> string \<Rightarrow> string" where
  "title_from prev_cased [] = []"
| "title_from prev_cased (c # s) =
     (if is_cased c
      then (if prev_cased then lower_char c else upper_char c) # title_from True s
      else c # title_from False s)"

definition str_title :: "string \<Rightarrow> string" where
  "str_title s = title_from False s"

subsection \<open>Data model\<close>

text \<open>The dictionary stored for a section: keys \<^verbatim>\<open>type\<close> (field \<open>rtype\<close>), \<^verbatim>\<open>title\<close>, \<^verbatim>\<open>reference\<close>
  and \<^verbatim>\<open>text\<close> (field \<open>rtext\<close>).\<close>

record reading =
  rtype :: string
  title :: string
  reference :: string
  rtext :: string

text \<open>The local variables of the loop (lines 50 to 53). \<^verbatim>\<open>current_section\<close> is
  \<^verbatim>\<open>None\<close> or a string; \<^verbatim>\<open>readings_found\<close> is a dictionary keyed by type.\<close>

record state =
  buffer :: "string list"
  current_section :: "string option"
  current_ref :: string
  readings_found :: "string \<rightharpoonup> reading"

datatype error = IndexError

text \<open>The keyword dictionary (lines 39 to 44); a Python dictionary iterates in insertion
  order, so it is the list of its items.\<close>

definition keywords_dict :: "(string \<times> string) list" where
  "keywords_dict =
     [(''Primera Lectura'', ''first_reading''),
      (''Salmo Responsorial'', ''psalm''),
      (''Segunda Lectura'', ''second_reading''),
      (''Evangelio'', ''gospel'')]"

definition ordered_keys :: "string list" where
  "ordered_keys = [''first_reading'', ''psalm'', ''second_reading'', ''gospel'']"

definition init_state :: state where
  "init_state = \<lparr>buffer = [], current_section = None, current_ref = [],
                 readings_found = Map.empty\<rparr>"

subsection \<open>The line classifier (lines 60 to 64)\<close>

text \<open>The inner loop over \<^verbatim>\<open>keywords.items()\<close> with its \<^verbatim>\<open>break\<close>: the first item whose
  lower-cased key occurs in the lower-cased line gives the type.\<close>

fun detect :: "(string \<times> string) list \<Rightarrow> string \<Rightarrow> string option" where
  "detect [] line = None"
| "detect ((key, val) # kvs) line =
     (if contains (lower key) (lower line) then Some val else detect kvs line)"

text \<open>Python truth of \<^verbatim>\<open>detected_type\<close> and \<^verbatim>\<open>current_section\<close>: not \<^verbatim>\<open>None\<close> and not
  the empty string.\<close>

definition truthy :: "string option \<Rightarrow> bool" where
  "truthy x = (case x of None \<Rightarrow> False | Some s \<Rightarrow> s \<noteq> [])"

subsection \<open>The section accumulator (lines 55 to 105)\<close>

text \<open>The block that saves the open section (lines 68 to 76, and again lines 97 to 105):
  the two copies differ in the title only, which is the argument \<open>ttl\<close>.\<close>

definition save_section :: "string \<Rightarrow> state \<Rightarrow> state" where
  "save_section ttl st =
     (case current_section st of
        None \<Rightarrow> st
      | Some cs \<Rightarrow>
          if cs \<noteq> [] \<and> buffer st \<noteq> [] then
            (let full_text = strip (join '' '' (buffer st)) in
             if readings_found st cs = None
             then st\<lparr>readings_found := (readings_found st)(cs \<mapsto>
                    \<lparr>rtype = cs, title = ttl, reference = current_ref st,
                     rtext = full_text\<rparr>)\<rparr>
             else st)
          else st)"

text \<open>\<^verbatim>\<open>lines[j]\<close> for a natural number \<open>j\<close>: out of range raises \<^verbatim>\<open>IndexError\<close>.\<close>

definition index :: "string list \<Rightarrow> nat \<Rightarrow> error + string" where
  "index lines j = (if j < length lines then Inr (lines ! j) else Inl IndexError)"

text \<open>One iteration of \<^verbatim>\<open>for i, line in enumerate(lines)\<close>.\<close>

definition step :: "string list \<Rightarrow> nat \<times> string \<Rightarrow> state \<Rightarrow> error + state" where
  "step lines il st =
     (case il of (i, raw) \<Rightarrow>
        let line = strip raw in
        if line = [] then Inr st
        else
          let detected_type = detect keywords_dict line in
          if truthy detected_type then
            (let st1 = save_section line st;
                 st2 = st1\<lparr>current_section := detected_type, buffer := [],
                           current_ref := []\<rparr>
             in if i + 1 < length lines then
                  (case index lines (i + 1) of
                     Inl e \<Rightarrow> Inl e
                   | Inr nl \<Rightarrow>
                       let next_line = strip nl in
                       if list_ex isdigit next_line
                       then Inr (st2\<lparr>current_ref := next_line\<rparr>)
                       else Inr st2)
                else Inr st2)
          else if truthy (current_section st) then
            (if line \<noteq> current_ref st
             then Inr (st\<lparr>buffer := buffer st @ [line]\<rparr>)
             else Inr st)
          else Inr st)"

fun loop :: "string list \<Rightarrow> (nat \<times> string) list \<Rightarrow> state \<Rightarrow> error + state" where
  "loop lines [] st = Inr st"
| "loop lines (il # ils) st =
     (case step lines il st of Inl e \<Rightarrow> Inl e | Inr st' \<Rightarrow> loop lines ils st')"

text \<open>The save of the very last section (lines 97 to 105), titled with the type name.\<close>

definition save_last :: "state \<Rightarrow> state" where
  "save_last st =
     (case current_section st of
        None \<Rightarrow> st
      | Some cs \<Rightarrow> save_section (str_title (replace_underscore cs)) st)"

subsection \<open>The orderer (lines 107 to 111)\<close>

fun emit :: "(string \<rightharpoonup> reading) \<Rightarrow> string list \<Rightarrow> reading list \<Rightarrow> reading list" where
  "emit rf [] readings = readings"
| "emit rf (k # ks) readings =
     (case rf k of
        Some r \<Rightarrow> emit rf ks (readings @ [r])
      | None \<Rightarrow> emit rf ks readings)"

subsection \<open>The core\<close>

text \<open>The state of the local variables after the first \<open>n\<close> iterations of the loop.\<close>

definition state_after :: "string list \<Rightarrow> nat \<Rightarrow> error + state" where
  "state_after lines n = loop lines (take n (enumerate 0 lines)) init_state"

text \<open>Lines 55 to 105 from given values of the local variables.\<close>

definition run :: "state \<Rightarrow> string list \<Rightarrow> error + state" where
  "run st0 lines =
     (case loop lines (enumerate 0 lines) st0 of
        Inl e \<Rightarrow> Inl e
      | Inr st \<Rightarrow> Inr (save_last st))"

definition segmentation_core :: "string list \<Rightarrow> error + reading list" where
  "segmentation_core lines =
     (case run init_state lines of
        Inl e \<Rightarrow> Inl e
      | Inr st \<Rightarrow> Inr (emit (readings_found st) ordered_keys []))"

subsection \<open>The classifier as the specification words it\<close>

text \<open>The specification's classifier: the first keyword, in table definition order,
  whose phrase occurs case-insensitively as a contiguous block anywhere in the line;
  none when no phrase occurs.\<close>

definition spec_classify :: "string \<Rightarrow> string option" where
  "spec_classify line =
     map_option snd (find (\<lambda>(k, v). sublist (lower k) (lower line)) keywords_dict)"

subsection \<open>Invariants of the loop\<close>

text \<open>Every buffered line has a character that is not whitespace, and the reference of
  the open section is not among the buffered lines.\<close>

definition buffer_ok :: "state \<Rightarrow> bool" where
  "buffer_ok st \<longleftrightarrow>
     (\<forall>l\<in>set (buffer st). \<exists>c\<in>set l. \<not> isspace c) \<and> current_ref st \<notin> set (buffer st)"

text \<open>The open section, when there is one, is one of the four types.\<close>

definition section_ok :: "state \<Rightarrow> bool" where
  "section_ok st \<longleftrightarrow> (\<forall>T. current_section st = Some T \<longrightarrow> T \<in> set ordered_keys)"

text \<open>Every recorded reading is stored under its own type, which is one of the four,
  has a text that is not empty, and is titled by a header line of the input or by its
  title-cased type.\<close>

definition found_ok :: "string list \<Rightarrow> (string \<rightharpoonup> reading) \<Rightarrow> bool" where
  "found_ok lines rf \<longleftrightarrow>
     (\<forall>k r. rf k = Some r \<longrightarrow>
        rtype r = k \<and> k \<in> set ordered_keys \<and> rtext r \<noteq> [] \<and>
        ((\<exists>l\<in>set lines. detect keywords_dict (strip l) \<noteq> None \<and> title r = strip l) \<or>
         title r = str_title (replace_underscore k)))"

subsection \<open>The body of a section as the specification words it\<close>

text \<open>The specification's text of a section: the body lines belonging to the section, in
  source order, with the reference line excluded. For a section opened by the header at
  index \<open>h\<close> and still open before index \<open>n\<close>, these are the stripped lines strictly
  between \<open>h\<close> and \<open>n\<close> that are not blank and differ from the reference \<open>ref\<close>.\<close>

definition body_lines :: "string list \<Rightarrow> nat \<Rightarrow> nat \<Rightarrow> string \<Rightarrow> string list" where
  "body_lines lines h n ref =
     filter (\<lambda>l. l \<noteq> [] \<and> l \<noteq> ref) (map strip (take (n - Suc h) (drop (Suc h) lines)))"

section \<open>Auxiliary facts\<close>

subsection \<open>Strings\<close>

lemma dropWhile_keeps_witness:
  "\<exists>c\<in>set xs. \<not> P c \<Longrightarrow> \<exists>c\<in>set (dropWhile P xs). \<not> P c"
proof -
  assume "\<exists>c\<in>set xs. \<not> P c"
  then have ne: "dropWhile P xs \<noteq> []" by (simp add: dropWhile_eq_Nil_conv)
  then have "\<not> P (hd (dropWhile P xs))" by (rule hd_dropWhile)
  moreover from ne have "hd (dropWhile P xs) \<in> set (dropWhile P xs)" by simp
  ultimately show ?thesis by blast
qed

lemma set_strip: "c \<in> set (strip s) \<Longrightarrow> c \<in> set s"
proof -
  assume "c \<in> set (strip s)"
  then have "c \<in> set (dropWhile isspace (rev (dropWhile isspace s)))"
    by (simp add: strip_def)
  then have "c \<in> set (rev (dropWhile isspace s))" by (rule set_dropWhileD)
  then have "c \<in> set (dropWhile isspace s)" by simp
  then show "c \<in> set s" by (rule set_dropWhileD)
qed

lemma strip_witness: "(\<exists>c\<in>set (strip s). \<not> isspace c) \<longleftrightarrow> (\<exists>c\<in>set s. \<not> isspace c)"
proof
  assume "\<exists>c\<in>set (strip s). \<not> isspace c"
  then show "\<exists>c\<in>set s. \<not> isspace c" using set_strip by blast
next
  assume "\<exists>c\<in>set s. \<not> isspace c"
  then have "\<exists>c\<in>set (dropWhile isspace s). \<not> isspace c" by (rule dropWhile_keeps_witness)
  then have "\<exists>c\<in>set (rev (dropWhile isspace s)). \<not> isspace c" by simp
  then have "\<exists>c\<in>set (dropWhile isspace (rev (dropWhile isspace s))). \<not> isspace c"
    by (rule dropWhile_keeps_witness)
  then show "\<exists>c\<in>set (strip s). \<not> isspace c" by (simp add: strip_def)
qed

lemma strip_nonempty_iff: "strip s \<noteq> [] \<longleftrightarrow> (\<exists>c\<in>set s. \<not> isspace c)"
proof
  assume "strip s \<noteq> []"
  then have "dropWhile isspace (rev (dropWhile isspace s)) \<noteq> []" by (simp add: strip_def)
  then have "\<exists>c\<in>set (rev (dropWhile isspace s)). \<not> isspace c"
    by (simp add: dropWhile_eq_Nil_conv)
  then obtain c where "c \<in> set (dropWhile isspace s)" "\<not> isspace c" by auto
  then show "\<exists>c\<in>set s. \<not> isspace c" using set_dropWhileD by fast
next
  assume "\<exists>c\<in>set s. \<not> isspace c"
  then have "\<exists>c\<in>set (strip s). \<not> isspace c" by (simp add: strip_witness)
  then show "strip s \<noteq> []" by auto
qed

lemma strip_nonempty_witness: "strip s \<noteq> [] \<Longrightarrow> \<exists>c\<in>set (strip s). \<not> isspace c"
  by (simp add: strip_witness strip_nonempty_iff)

lemma set_join: "x \<in> set xs \<Longrightarrow> set x \<subseteq> set (join sep xs)"
  by (induction sep xs rule: join.induct) auto

lemma strip_join_nonempty:
  assumes "xs \<noteq> []" and "\<forall>l\<in>set xs. \<exists>c\<in>set l. \<not> isspace c"
  shows "strip (join sep xs) \<noteq> []"
proof -
  from assms(1) obtain x where x: "x \<in> set xs" by (cases xs) auto
  with assms(2) obtain c where "c \<in> set x" "\<not> isspace c" by blast
  with x have "c \<in> set (join sep xs)" using set_join by blast
  with \<open>\<not> isspace c\<close> show ?thesis by (auto simp: strip_nonempty_iff)
qed

lemma contains_sublist: "contains sub s \<longleftrightarrow> sublist sub s"
  by (induction s) (auto simp: sublist_Cons_right)

subsection \<open>The classifier\<close>

lemma detect_find:
  "detect kvs line = map_option snd (find (\<lambda>(k, v). sublist (lower k) (lower line)) kvs)"
  by (induction kvs line rule: detect.induct) (auto simp: contains_sublist)

lemma detect_in_values: "detect kvs line = Some v \<Longrightarrow> v \<in> snd ` set kvs"
  by (induction kvs line rule: detect.induct) (auto split: if_splits)

lemma detect_keywords_ordered:
  "detect keywords_dict line = Some T \<Longrightarrow> T \<in> set ordered_keys"
  by (drule detect_in_values) (auto simp: keywords_dict_def ordered_keys_def)

lemma ordered_keys_nonempty: "T \<in> set ordered_keys \<Longrightarrow> T \<noteq> []"
  by (auto simp: ordered_keys_def)

lemma truthy_detect:
  "truthy (detect keywords_dict line) \<longleftrightarrow> detect keywords_dict line \<noteq> None"
  by (auto simp: truthy_def split: option.splits
      dest: detect_keywords_ordered ordered_keys_nonempty)

subsection \<open>The loop never raises\<close>

lemma step_total: "\<exists>st'. step lines (i, raw) st = Inr st'"
  by (simp add: step_def index_def Let_def)

lemma loop_total: "\<exists>st'. loop lines ils st = Inr st'"
proof (induction ils arbitrary: st)
  case Nil
  show ?case by simp
next
  case (Cons il ils)
  obtain i raw where il: "il = (i, raw)" by (cases il)
  obtain st1 where "step lines (i, raw) st = Inr st1" using step_total by blast
  with Cons il show ?case by simp
qed

lemma loop_append:
  "loop lines (xs @ ys) st =
     (case loop lines xs st of Inl e \<Rightarrow> Inl e | Inr st' \<Rightarrow> loop lines ys st')"
  by (induction xs arbitrary: st) (auto split: sum.splits)

lemma take_Suc_enumerate:
  "i < length lines \<Longrightarrow>
     take (Suc i) (enumerate 0 lines) = take i (enumerate 0 lines) @ [(i, lines ! i)]"
  by (simp add: take_Suc_conv_app_nth nth_enumerate_eq)

lemma state_after_0: "state_after lines 0 = Inr init_state"
  by (simp add: state_after_def)

lemma state_after_Suc:
  "i < length lines \<Longrightarrow> state_after lines (Suc i) =
     (case state_after lines i of Inl e \<Rightarrow> Inl e | Inr st \<Rightarrow> step lines (i, lines ! i) st)"
  by (simp add: state_after_def take_Suc_enumerate loop_append split: sum.splits)

lemma state_after_total: "\<exists>st. state_after lines n = Inr st"
  unfolding state_after_def by (rule loop_total)

lemma run_state_after:
  "run init_state lines =
     (case state_after lines (length lines) of Inl e \<Rightarrow> Inl e | Inr st \<Rightarrow> Inr (save_last st))"
  by (simp add: run_def state_after_def)

lemma emit_map_filter: "emit rf ks acc = acc @ List.map_filter rf ks"
  by (induction ks arbitrary: acc) (auto split: option.splits)

subsection \<open>Saving a section\<close>

lemma save_section_keeps:
  "readings_found st k = Some r \<Longrightarrow> readings_found (save_section ttl st) k = Some r"
  by (auto simp: save_section_def Let_def split: option.splits)

lemma save_section_records:
  assumes "current_section st = Some S" "S \<noteq> []" "buffer st \<noteq> []" "readings_found st S = None"
  shows "readings_found (save_section ttl st) S =
     Some \<lparr>rtype = S, title = ttl, reference = current_ref st,
           rtext = strip (join '' '' (buffer st))\<rparr>"
  using assms by (simp add: save_section_def Let_def)

lemma save_section_empty_buffer:
  "buffer st = [] \<Longrightarrow> save_section ttl st = st"
  by (auto simp: save_section_def split: option.splits)

lemma save_section_found_ok:
  assumes "found_ok lines (readings_found st)" "buffer_ok st" "section_ok st"
    and "(\<exists>l\<in>set lines. detect keywords_dict (strip l) \<noteq> None \<and> ttl = strip l) \<or>
         (\<forall>S. current_section st = Some S \<longrightarrow> ttl = str_title (replace_underscore S))"
  shows "found_ok lines (readings_found (save_section ttl st))"
proof (cases "current_section st")
  case None
  with assms(1) show ?thesis by (simp add: save_section_def)
next
  case (Some S)
  show ?thesis
  proof (cases "S \<noteq> [] \<and> buffer st \<noteq> [] \<and> readings_found st S = None")
    case False
    with Some assms(1) show ?thesis by (auto simp: save_section_def Let_def)
  next
    case True
    from Some assms(3) have S: "S \<in> set ordered_keys" by (simp add: section_ok_def)
    from True assms(2) have ne_text: "strip (join '' '' (buffer st)) \<noteq> []"
      by (intro strip_join_nonempty) (auto simp: buffer_ok_def)
    from True Some have rf: "readings_found (save_section ttl st) =
       (readings_found st)(S \<mapsto> \<lparr>rtype = S, title = ttl, reference = current_ref st,
           rtext = strip (join '' '' (buffer st))\<rparr>)"
      by (simp add: save_section_def Let_def)
    show ?thesis unfolding rf found_ok_def
    proof (intro allI impI)
      fix k r
      assume kr: "((readings_found st)(S \<mapsto> \<lparr>rtype = S, title = ttl, reference = current_ref st,
           rtext = strip (join '' '' (buffer st))\<rparr>)) k = Some r"
      show "rtype r = k \<and> k \<in> set ordered_keys \<and> rtext r \<noteq> [] \<and>
        ((\<exists>l\<in>set lines. detect keywords_dict (strip l) \<noteq> None \<and> title r = strip l) \<or>
         title r = str_title (replace_underscore k))"
      proof (cases "k = S")
        case True
        with kr have "r = \<lparr>rtype = S, title = ttl, reference = current_ref st,
           rtext = strip (join '' '' (buffer st))\<rparr>" by simp
        with True S ne_text assms(4) Some show ?thesis by auto
      next
        case False
        with kr have "readings_found st k = Some r" by simp
        with assms(1) show ?thesis unfolding found_ok_def by blast
      qed
    qed
  qed
qed

subsection \<open>One iteration\<close>

lemma detect_empty_line: "detect keywords_dict [] = None"
  by (simp add: keywords_dict_def lower_def)

lemma detect_line_nonempty: "detect keywords_dict line = Some T \<Longrightarrow> line \<noteq> []"
  using detect_empty_line by auto

lemma step_blank: "strip raw = [] \<Longrightarrow> step lines (i, raw) st = Inr st"
  by (simp add: step_def)

lemma step_header:
  assumes "detect keywords_dict (strip raw) = Some T"
  shows "step lines (i, raw) st =
     Inr ((save_section (strip raw) st)\<lparr>current_section := Some T, buffer := [],
        current_ref := (if i + 1 < length lines \<and> list_ex isdigit (strip (lines ! (i + 1)))
                        then strip (lines ! (i + 1)) else [])\<rparr>)"
proof -
  from assms have ne: "strip raw \<noteq> []" by (rule detect_line_nonempty)
  from assms have tr: "truthy (Some T)" using truthy_detect[of "strip raw"] by simp
  show ?thesis using ne tr assms by (simp add: step_def index_def Let_def)
qed

lemma step_body:
  assumes "strip raw \<noteq> []" "detect keywords_dict (strip raw) = None"
  shows "step lines (i, raw) st =
     Inr (if truthy (current_section st) \<and> strip raw \<noteq> current_ref st
          then st\<lparr>buffer := buffer st @ [strip raw]\<rparr> else st)"
  using assms by (simp add: step_def Let_def truthy_def)

lemma step_keeps:
  assumes "step lines (i, raw) st = Inr st'" "readings_found st k = Some r"
  shows "readings_found st' k = Some r"
proof (cases "strip raw = []")
  case True
  with assms show ?thesis by (simp add: step_blank)
next
  case False
  show ?thesis
  proof (cases "detect keywords_dict (strip raw)")
    case None
    with False assms show ?thesis by (auto simp: step_body split: if_splits)
  next
    case (Some T)
    with assms show ?thesis by (auto simp: step_header save_section_keeps)
  qed
qed

lemma step_preserves:
  assumes "raw \<in> set lines" "step lines (i, raw) st = Inr st'"
    and "buffer_ok st" "section_ok st" "found_ok lines (readings_found st)"
  shows "buffer_ok st' \<and> section_ok st' \<and> found_ok lines (readings_found st')"
proof (cases "strip raw = []")
  case True
  with assms show ?thesis by (simp add: step_blank)
next
  case False
  show ?thesis
  proof (cases "detect keywords_dict (strip raw)")
    case None
    from False have "\<exists>c\<in>set (strip raw). \<not> isspace c" by (rule strip_nonempty_witness)
    with None False assms show ?thesis
      by (auto simp: step_body buffer_ok_def section_ok_def split: if_splits)
  next
    case (Some T)
    from Some have T: "T \<in> set ordered_keys" by (rule detect_keywords_ordered)
    from assms(1) Some
    have "found_ok lines (readings_found (save_section (strip raw) st))"
      by (intro save_section_found_ok assms) auto
    with Some T assms(2) show ?thesis
      by (auto simp: step_header buffer_ok_def section_ok_def)
  qed
qed

lemma loop_keeps:
  "loop lines ils st = Inr st' \<Longrightarrow> readings_found st k = Some r \<Longrightarrow>
     readings_found st' k = Some r"
proof (induction ils arbitrary: st)
  case Nil
  then show ?case by simp
next
  case (Cons il ils)
  obtain i raw where il: "il = (i, raw)" by (cases il)
  obtain st1 where st1: "step lines (i, raw) st = Inr st1" using step_total by blast
  from st1 Cons.prems(2) have "readings_found st1 k = Some r" by (rule step_keeps)
  moreover from Cons.prems(1) il st1 have "loop lines ils st1 = Inr st'" by simp
  ultimately show ?case by (rule Cons.IH[rotated])
qed

lemma loop_preserves:
  assumes "loop lines ils st = Inr st'" "\<forall>(i, raw)\<in>set ils. raw \<in> set lines"
    and "buffer_ok st" "section_ok st" "found_ok lines (readings_found st)"
  shows "buffer_ok st' \<and> section_ok st' \<and> found_ok lines (readings_found st')"
  using assms
proof (induction ils arbitrary: st)
  case Nil
  then show ?case by simp
next
  case (Cons il ils)
  obtain i raw where il: "il = (i, raw)" by (cases il)
  obtain st1 where st1: "step lines (i, raw) st = Inr st1" using step_total by blast
  from Cons.prems(2) il have raw: "raw \<in> set lines" by simp
  from step_preserves[OF raw st1 Cons.prems(3,4,5)]
  have ok1: "buffer_ok st1" "section_ok st1" "found_ok lines (readings_found st1)" by simp_all
  from Cons.prems(1) il st1 have l: "loop lines ils st1 = Inr st'" by simp
  from Cons.prems(2) have "\<forall>(i, raw)\<in>set ils. raw \<in> set lines" by simp
  with l ok1 show ?case by (intro Cons.IH)
qed

subsection \<open>The invariants hold after every iteration\<close>

lemma init_ok:
  "buffer_ok init_state" "section_ok init_state" "found_ok lines (readings_found init_state)"
  by (simp_all add: init_state_def buffer_ok_def section_ok_def found_ok_def)

lemma enumerate_lines: "\<forall>(i, raw)\<in>set (take n (enumerate 0 lines)). raw \<in> set lines"
  by (auto dest!: in_set_takeD simp: in_set_enumerate_eq)

lemma state_after_ok:
  assumes "state_after lines n = Inr st"
  shows "buffer_ok st \<and> section_ok st \<and> found_ok lines (readings_found st)"
  using assms unfolding state_after_def
  by (rule loop_preserves) (simp_all add: enumerate_lines init_ok)

lemma state_after_full: "length lines \<le> n \<Longrightarrow> state_after lines n = state_after lines (length lines)"
  by (simp add: state_after_def)

lemma state_after_mono:
  assumes "n \<le> m" "state_after lines n = Inr st" "state_after lines m = Inr st'"
    and "readings_found st k = Some r"
  shows "readings_found st' k = Some r"
proof -
  let ?e = "enumerate 0 lines"
  from assms(1) have "take m ?e = take n ?e @ drop n (take m ?e)"
    by (metis append_take_drop_id min.absorb1 take_take)
  then have "state_after lines m = (case state_after lines n of Inl e \<Rightarrow> Inl e
       | Inr s \<Rightarrow> loop lines (drop n (take m ?e)) s)"
    unfolding state_after_def by (metis loop_append)
  with assms(2,3) have "loop lines (drop n (take m ?e)) st = Inr st'" by simp
  then show ?thesis using assms(4) by (rule loop_keeps)
qed

lemma save_last_keeps:
  "readings_found st k = Some r \<Longrightarrow> readings_found (save_last st) k = Some r"
  by (auto simp: save_last_def save_section_keeps split: option.splits)

lemma save_last_found_ok:
  assumes "found_ok lines (readings_found st)" "buffer_ok st" "section_ok st"
  shows "found_ok lines (readings_found (save_last st))"
proof (cases "current_section st")
  case None
  with assms(1) show ?thesis by (simp add: save_last_def)
next
  case (Some S)
  then have "save_last st = save_section (str_title (replace_underscore S)) st"
    by (simp add: save_last_def)
  moreover have "found_ok lines (readings_found (save_section (str_title (replace_underscore S)) st))"
    using assms Some by (intro save_section_found_ok) auto
  ultimately show ?thesis by simp
qed

lemma core_eq:
  assumes "state_after lines (length lines) = Inr st"
  shows "segmentation_core lines = Inr (List.map_filter (readings_found (save_last st)) ordered_keys)"
  using assms by (simp add: segmentation_core_def run_state_after emit_map_filter)

lemma map_filter_types:
  assumes "\<forall>k r. rf k = Some r \<longrightarrow> rtype r = k"
  shows "map rtype (List.map_filter rf ks) = filter (\<lambda>k. rf k \<noteq> None) ks"
  using assms by (induction ks) (auto simp: List.map_filter_simps split: option.splits)

subsection \<open>The whole run\<close>

lemma core_total_shape:
  "\<exists>st. state_after lines (length lines) = Inr st \<and>
     segmentation_core lines = Inr (List.map_filter (readings_found (save_last st)) ordered_keys) \<and>
     found_ok lines (readings_found (save_last st))"
proof -
  obtain st where st: "state_after lines (length lines) = Inr st"
    using state_after_total by blast
  from st have "buffer_ok st \<and> section_ok st \<and> found_ok lines (readings_found st)"
    by (rule state_after_ok)
  then have "found_ok lines (readings_found (save_last st))"
    by (simp add: save_last_found_ok)
  with st core_eq[OF st] show ?thesis by blast
qed

lemma loop_no_header:
  assumes "\<forall>(i, raw)\<in>set ils. detect keywords_dict (strip raw) = None"
    and "current_section st = None"
  shows "loop lines ils st = Inr st"
  using assms
proof (induction ils)
  case Nil
  show ?case by simp
next
  case (Cons il ils)
  obtain i raw where il: "il = (i, raw)" by (cases il)
  with Cons.prems have d: "detect keywords_dict (strip raw) = None" by simp
  have "step lines (i, raw) st = Inr st"
  proof (cases "strip raw = []")
    case True
    then show ?thesis by (rule step_blank)
  next
    case False
    with d Cons.prems(2) show ?thesis by (simp add: step_body truthy_def)
  qed
  with Cons il show ?case by simp
qed

lemma core_no_header:
  assumes "\<forall>l\<in>set lines. detect keywords_dict (strip l) = None"
  shows "segmentation_core lines = Inr []"
proof -
  from assms have "\<forall>(i, raw)\<in>set (enumerate 0 lines). detect keywords_dict (strip raw) = None"
    by (auto simp: in_set_enumerate_eq)
  then have "loop lines (enumerate 0 lines) init_state = Inr init_state"
    by (rule loop_no_header) (simp add: init_state_def)
  then show ?thesis
    by (simp add: segmentation_core_def run_def save_last_def init_state_def ordered_keys_def)
qed

lemma lower_keys:
  "lower ''Primera Lectura'' = ''primera lectura''"
  "lower ''Salmo Responsorial'' = ''salmo responsorial''"
  "lower ''Segunda Lectura'' = ''segunda lectura''"
  "lower ''Evangelio'' = ''evangelio''"
  by code_simp+

lemma detect_unfold:
  "detect keywords_dict line =
     (if sublist ''primera lectura'' (lower line) then Some ''first_reading''
      else if sublist ''salmo responsorial'' (lower line) then Some ''psalm''
      else if sublist ''segunda lectura'' (lower line) then Some ''second_reading''
      else if sublist ''evangelio'' (lower line) then Some ''gospel''
      else None)"
  by (simp add: keywords_dict_def contains_sublist lower_keys)

subsection \<open>An open section between two header lines\<close>

lemma state_after_header:
  assumes "h < length lines" "state_after lines h = Inr s0"
    and "detect keywords_dict (strip (lines ! h)) = Some T"
  shows "state_after lines (Suc h) =
     Inr ((save_section (strip (lines ! h)) s0)\<lparr>current_section := Some T, buffer := [],
        current_ref := (if Suc h < length lines \<and> list_ex isdigit (strip (lines ! Suc h))
                        then strip (lines ! Suc h) else [])\<rparr>)"
  using assms by (simp add: state_after_Suc step_header)

lemma state_after_body:
  assumes "n < length lines" "state_after lines n = Inr st"
    and "detect keywords_dict (strip (lines ! n)) = None" "current_section st = Some T"
    and "T \<noteq> []"
  shows "state_after lines (Suc n) =
     Inr (if strip (lines ! n) \<noteq> [] \<and> strip (lines ! n) \<noteq> current_ref st
          then st\<lparr>buffer := buffer st @ [strip (lines ! n)]\<rparr> else st)"
proof (cases "strip (lines ! n) = []")
  case True
  with assms show ?thesis by (simp add: state_after_Suc step_blank)
next
  case False
  with assms show ?thesis by (simp add: state_after_Suc step_body truthy_def)
qed

lemma take_Suc_drop:
  "a + k < length xs \<Longrightarrow> take (Suc k) (drop a xs) = take k (drop a xs) @ [xs ! (a + k)]"
  by (simp add: take_Suc_conv_app_nth)

lemma section_buffer:
  assumes hdr: "detect keywords_dict (strip (lines ! h)) = Some T"
    and h: "h < length lines"
    and sh: "state_after lines (Suc h) = Inr sh"
  shows "Suc h \<le> n \<Longrightarrow> n \<le> length lines \<Longrightarrow>
     (\<forall>j. h < j \<and> j < n \<longrightarrow> detect keywords_dict (strip (lines ! j)) = None) \<Longrightarrow>
     \<exists>st. state_after lines n = Inr st \<and> current_section st = Some T \<and>
       current_ref st = current_ref sh \<and> readings_found st = readings_found sh \<and>
       buffer st = filter (\<lambda>l. l \<noteq> [] \<and> l \<noteq> current_ref sh)
                     (map strip (take (n - Suc h) (drop (Suc h) lines)))"
proof (induction n rule: dec_induct)
  case base
  obtain s0 where s0: "state_after lines h = Inr s0" using state_after_total by blast
  from state_after_header[OF h s0 hdr] sh
  have "current_section sh = Some T" "buffer sh = []" by auto
  with sh show ?case by simp
next
  case (step n)
  from step.prems have n: "n < length lines" by simp
  from step.prems(2) have "\<forall>j. h < j \<and> j < n \<longrightarrow> detect keywords_dict (strip (lines ! j)) = None"
    by simp
  with step.IH n obtain st where st: "state_after lines n = Inr st"
    and cs: "current_section st = Some T" and cr: "current_ref st = current_ref sh"
    and rf: "readings_found st = readings_found sh"
    and buf: "buffer st = filter (\<lambda>l. l \<noteq> [] \<and> l \<noteq> current_ref sh)
                     (map strip (take (n - Suc h) (drop (Suc h) lines)))"
    by auto
  from step.hyps step.prems(2) have nh: "detect keywords_dict (strip (lines ! n)) = None"
    by simp
  from hdr have "T \<noteq> []" by (auto dest: detect_keywords_ordered ordered_keys_nonempty)
  from state_after_body[OF n st nh cs this]
  have nxt: "state_after lines (Suc n) =
     Inr (if strip (lines ! n) \<noteq> [] \<and> strip (lines ! n) \<noteq> current_ref st
          then st\<lparr>buffer := buffer st @ [strip (lines ! n)]\<rparr> else st)" .
  from step.hyps n have "Suc h + (n - Suc h) < length lines" by simp
  then have "take (Suc (n - Suc h)) (drop (Suc h) lines) =
      take (n - Suc h) (drop (Suc h) lines) @ [lines ! (Suc h + (n - Suc h))]"
    by (rule take_Suc_drop)
  moreover from step.hyps have "Suc (n - Suc h) = Suc n - Suc h" "Suc h + (n - Suc h) = n"
    by simp_all
  ultimately have tk: "take (Suc n - Suc h) (drop (Suc h) lines) =
      take (n - Suc h) (drop (Suc h) lines) @ [lines ! n]" by simp
  show ?case unfolding nxt tk using cs cr rf buf by simp
qed

lemma save_section_other:
  "current_section st \<noteq> Some k \<Longrightarrow>
     readings_found (save_section ttl st) k = readings_found st k"
  by (auto simp: save_section_def Let_def split: option.splits)

lemma not_seen_not_recorded:
  "n \<le> length lines \<Longrightarrow> \<forall>j<n. detect keywords_dict (strip (lines ! j)) \<noteq> Some k \<Longrightarrow>
     state_after lines n = Inr st \<Longrightarrow>
     readings_found st k = None \<and> current_section st \<noteq> Some k"
proof (induction n arbitrary: st)
  case 0
  then have "st = init_state" by (simp add: state_after_0)
  then show ?case by (simp add: init_state_def)
next
  case (Suc n)
  from Suc.prems have n: "n < length lines" by simp
  obtain s0 where s0: "state_after lines n = Inr s0" using state_after_total by blast
  from Suc.prems n have "readings_found s0 k = None \<and> current_section s0 \<noteq> Some k"
    by (intro Suc.IH s0) auto
  then have rf0: "readings_found s0 k = None" and cs0: "current_section s0 \<noteq> Some k"
    by simp_all
  from Suc.prems(2) have nk: "detect keywords_dict (strip (lines ! n)) \<noteq> Some k" by simp
  from Suc.prems(3) n s0 have stp: "step lines (n, lines ! n) s0 = Inr st"
    by (simp add: state_after_Suc)
  show ?case
  proof (cases "strip (lines ! n) = []")
    case True
    with stp rf0 cs0 show ?thesis by (simp add: step_blank)
  next
    case False
    show ?thesis
    proof (cases "detect keywords_dict (strip (lines ! n))")
      case None
      with False stp rf0 cs0 show ?thesis by (auto simp: step_body split: if_splits)
    next
      case (Some T)
      with nk have "T \<noteq> k" by simp
      with Some stp rf0 cs0 show ?thesis
        by (auto simp: step_header save_section_other)
    qed
  qed
qed

lemma map_filter_by_type:
  assumes "\<forall>k r. rf k = Some r \<longrightarrow> rtype r = k" "rf k = Some r"
  shows "distinct ks \<Longrightarrow> k \<in> set ks \<Longrightarrow>
     filter (\<lambda>r'. rtype r' = k) (List.map_filter rf ks) = [r]"
proof (induction ks)
  case Nil
  then show ?case by simp
next
  case (Cons a ks)
  have none: "k \<notin> set ks \<Longrightarrow> filter (\<lambda>r'. rtype r' = k) (List.map_filter rf ks) = []"
    using assms(1) by (auto simp: List.map_filter_def filter_empty_conv)
  show ?case
  proof (cases "a = k")
    case True
    with Cons.prems have "k \<notin> set ks" by simp
    with True assms none show ?thesis by (simp add: List.map_filter_simps)
  next
    case False
    with Cons have "filter (\<lambda>r'. rtype r' = k) (List.map_filter rf ks) = [r]" by simp
    with False assms(1) show ?thesis
      by (auto simp: List.map_filter_simps split: option.splits)
  qed
qed

lemma recorded_in_output:
  assumes "state_after lines n = Inr st" "readings_found st k = Some r"
  shows "\<exists>out. segmentation_core lines = Inr out \<and> filter (\<lambda>r'. rtype r' = k) out = [r]"
proof -
  obtain stf where stf: "state_after lines (length lines) = Inr stf"
    using state_after_total by blast
  have "readings_found stf k = Some r"
  proof (cases "n \<le> length lines")
    case True
    from True assms(1) stf assms(2) show ?thesis by (rule state_after_mono)
  next
    case False
    then have "state_after lines n = state_after lines (length lines)"
      by (intro state_after_full) simp
    with assms stf show ?thesis by simp
  qed
  then have rec: "readings_found (save_last stf) k = Some r" by (rule save_last_keeps)
  from stf have "buffer_ok stf \<and> section_ok stf \<and> found_ok lines (readings_found stf)"
    by (rule state_after_ok)
  then have ok: "found_ok lines (readings_found (save_last stf))"
    by (simp add: save_last_found_ok)
  from ok have ty: "\<forall>k r. readings_found (save_last stf) k = Some r \<longrightarrow> rtype r = k"
    by (simp add: found_ok_def)
  from ok rec have k: "k \<in> set ordered_keys" by (auto simp: found_ok_def)
  have "distinct ordered_keys" by (simp add: ordered_keys_def)
  with ty rec k
  have "filter (\<lambda>r'. rtype r' = k) (List.map_filter (readings_found (save_last stf)) ordered_keys) = [r]"
    by (intro map_filter_by_type)
  with core_eq[OF stf] show ?thesis by simp
qed

subsection \<open>Closing a section\<close>

lemma final_recorded:
  assumes "state_after lines (length lines) = Inr stf"
    and "readings_found (save_last stf) k = Some r"
  shows "\<exists>out. segmentation_core lines = Inr out \<and> filter (\<lambda>r'. rtype r' = k) out = [r]"
proof -
  from assms(1) have "buffer_ok stf \<and> section_ok stf \<and> found_ok lines (readings_found stf)"
    by (rule state_after_ok)
  then have ok: "found_ok lines (readings_found (save_last stf))"
    by (simp add: save_last_found_ok)
  from ok have ty: "\<forall>k r. readings_found (save_last stf) k = Some r \<longrightarrow> rtype r = k"
    by (simp add: found_ok_def)
  from ok assms(2) have k: "k \<in> set ordered_keys" by (auto simp: found_ok_def)
  have "distinct ordered_keys" by (simp add: ordered_keys_def)
  with ty assms(2) k
  have "filter (\<lambda>r'. rtype r' = k)
          (List.map_filter (readings_found (save_last stf)) ordered_keys) = [r]"
    by (intro map_filter_by_type)
  with core_eq[OF assms(1)] show ?thesis by simp
qed

lemma closed_by_header:
  assumes "i < length lines" "state_after lines i = Inr st" "current_section st = Some S"
    and "buffer st \<noteq> []" "readings_found st S = None"
    and "detect keywords_dict (strip (lines ! i)) = Some T"
  shows "\<exists>out. segmentation_core lines = Inr out \<and>
     filter (\<lambda>r. rtype r = S) out =
       [\<lparr>rtype = S, title = strip (lines ! i), reference = current_ref st,
         rtext = strip (join '' '' (buffer st))\<rparr>]"
proof -
  from assms(2) have "section_ok st" using state_after_ok by blast
  with assms(3) have "S \<noteq> []" by (auto simp: section_ok_def dest: ordered_keys_nonempty)
  with assms(3,4,5)
  have rec: "readings_found (save_section (strip (lines ! i)) st) S =
     Some \<lparr>rtype = S, title = strip (lines ! i), reference = current_ref st,
           rtext = strip (join '' '' (buffer st))\<rparr>"
    by (intro save_section_records)
  let ?s1 = "(save_section (strip (lines ! i)) st)\<lparr>current_section := Some T, buffer := [],
        current_ref := (if Suc i < length lines \<and> list_ex isdigit (strip (lines ! Suc i))
                        then strip (lines ! Suc i) else [])\<rparr>"
  from assms(1,2,6) have "state_after lines (Suc i) = Inr ?s1" by (rule state_after_header)
  moreover from rec have "readings_found ?s1 S =
     Some \<lparr>rtype = S, title = strip (lines ! i), reference = current_ref st,
           rtext = strip (join '' '' (buffer st))\<rparr>" by simp
  ultimately show ?thesis by (rule recorded_in_output)
qed

lemma closed_at_end:
  assumes "state_after lines (length lines) = Inr st" "current_section st = Some S"
    and "buffer st \<noteq> []" "readings_found st S = None"
  shows "\<exists>out. segmentation_core lines = Inr out \<and>
     filter (\<lambda>r. rtype r = S) out =
       [\<lparr>rtype = S, title = str_title (replace_underscore S), reference = current_ref st,
         rtext = strip (join '' '' (buffer st))\<rparr>]"
proof -
  from assms(1) have "section_ok st" using state_after_ok by blast
  with assms(2) have "S \<noteq> []" by (auto simp: section_ok_def dest: ordered_keys_nonempty)
  with assms(2,3,4)
  have "readings_found (save_section (str_title (replace_underscore S)) st) S =
     Some \<lparr>rtype = S, title = str_title (replace_underscore S), reference = current_ref st,
           rtext = strip (join '' '' (buffer st))\<rparr>"
    by (intro save_section_records)
  with assms(2) have "readings_found (save_last st) S =
     Some \<lparr>rtype = S, title = str_title (replace_underscore S), reference = current_ref st,
           rtext = strip (join '' '' (buffer st))\<rparr>"
    by (simp add: save_last_def)
  with assms(1) show ?thesis by (rule final_recorded)
qed

lemma titles_two_sources:
  "\<exists>out. segmentation_core lines = Inr out \<and>
     list_all (\<lambda>r. (\<exists>l\<in>set lines. detect keywords_dict (strip l) \<noteq> None \<and> title r = strip l) \<or>
                    title r = str_title (replace_underscore (rtype r))) out"
proof -
  obtain st where core: "segmentation_core lines =
      Inr (List.map_filter (readings_found (save_last st)) ordered_keys)"
    and ok: "found_ok lines (readings_found (save_last st))"
    using core_total_shape by blast
  have "list_all (\<lambda>r. (\<exists>l\<in>set lines. detect keywords_dict (strip l) \<noteq> None \<and> title r = strip l) \<or>
                    title r = str_title (replace_underscore (rtype r)))
          (List.map_filter (readings_found (save_last st)) ordered_keys)"
    unfolding list_all_iff
  proof
    fix r assume "r \<in> set (List.map_filter (readings_found (save_last st)) ordered_keys)"
    then obtain k where "readings_found (save_last st) k = Some r"
      by (auto simp: List.map_filter_def)
    with ok show "(\<exists>l\<in>set lines. detect keywords_dict (strip l) \<noteq> None \<and> title r = strip l) \<or>
                    title r = str_title (replace_underscore (rtype r))"
      unfolding found_ok_def by blast
  qed
  with core show ?thesis by blast
qed

lemma type_titles:
  "map (\<lambda>k. str_title (replace_underscore k)) ordered_keys =
     [''First Reading'', ''Psalm'', ''Second Reading'', ''Gospel'']"
  by code_simp

subsection \<open>From the header that opens a section to the header that closes it\<close>

lemma opened_section:
  assumes "Suc h < length lines" "detect keywords_dict (strip (lines ! h)) = Some T"
  shows "\<exists>sh. state_after lines (Suc h) = Inr sh \<and> current_section sh = Some T \<and>
     buffer sh = [] \<and>
     current_ref sh = (if list_ex isdigit (strip (lines ! Suc h))
                       then strip (lines ! Suc h) else [])"
proof -
  obtain s0 where s0: "state_after lines h = Inr s0" using state_after_total by blast
  from assms(1) have h: "h < length lines" by simp
  from state_after_header[OF h s0 assms(2)] assms(1) show ?thesis by simp
qed

lemma open_section_state:
  assumes "Suc h < length lines" "detect keywords_dict (strip (lines ! h)) = Some T"
    and "Suc h \<le> n" "n \<le> length lines"
    and "\<forall>j. h < j \<and> j < n \<longrightarrow> detect keywords_dict (strip (lines ! j)) = None"
  shows "\<exists>sh st. state_after lines (Suc h) = Inr sh \<and> state_after lines n = Inr st \<and>
     current_section sh = Some T \<and> current_section st = Some T \<and>
     current_ref sh = (if list_ex isdigit (strip (lines ! Suc h))
                       then strip (lines ! Suc h) else []) \<and>
     current_ref st = current_ref sh \<and> readings_found st = readings_found sh \<and>
     buffer st = body_lines lines h n (current_ref sh)"
proof -
  from opened_section[OF assms(1,2)] obtain sh where
    sh: "state_after lines (Suc h) = Inr sh" and cs: "current_section sh = Some T"
    and cr: "current_ref sh = (if list_ex isdigit (strip (lines ! Suc h))
                       then strip (lines ! Suc h) else [])"
    by blast
  from assms(1) have h: "h < length lines" by simp
  from section_buffer[OF assms(2) h sh assms(3,4,5)] obtain st where
    "state_after lines n = Inr st" "current_section st = Some T"
    "current_ref st = current_ref sh" "readings_found st = readings_found sh"
    "buffer st = body_lines lines h n (current_ref sh)"
    unfolding body_lines_def by blast
  with sh cs cr show ?thesis by blast
qed

lemma body_lines_head:
  assumes "Suc h < n" "Suc h < length lines" "strip (lines ! Suc h) \<noteq> []"
  shows "body_lines lines h n [] \<noteq> [] \<and> hd (body_lines lines h n []) = strip (lines ! Suc h)"
proof -
  from assms(1) obtain k where k: "n - Suc h = Suc k" by (cases "n - Suc h") auto
  from assms(2) have "drop (Suc h) lines = lines ! Suc h # drop (Suc (Suc h)) lines"
    by (simp add: Cons_nth_drop_Suc)
  with k assms(3) show ?thesis by (simp add: body_lines_def)
qed

lemma body_lines_excludes: "ref \<notin> set (body_lines lines h n ref)"
  by (simp add: body_lines_def)

lemma empty_section_records_nothing:
  assumes "h < n" "n < length lines"
    and "detect keywords_dict (strip (lines ! h)) = Some T"
    and "detect keywords_dict (strip (lines ! n)) = Some T'"
    and "\<forall>j. h < j \<and> j < n \<longrightarrow> detect keywords_dict (strip (lines ! j)) = None"
    and "body_lines lines h n (if list_ex isdigit (strip (lines ! Suc h))
                               then strip (lines ! Suc h) else []) = []"
  shows "\<exists>sh sn. state_after lines (Suc h) = Inr sh \<and> state_after lines (Suc n) = Inr sn \<and>
     readings_found sn = readings_found sh"
proof -
  from assms(1,2) have a: "Suc h < length lines" "Suc h \<le> n" "n \<le> length lines" by simp_all
  from open_section_state[OF a(1) assms(3) a(2,3) assms(5)] assms(6)
  obtain sh st where sh: "state_after lines (Suc h) = Inr sh"
    and st: "state_after lines n = Inr st"
    and rf: "readings_found st = readings_found sh" and buf: "buffer st = []"
    by auto
  from buf have "save_section (strip (lines ! n)) st = st" by (rule save_section_empty_buffer)
  with state_after_header[OF assms(2) st assms(4)] rf
  have "\<exists>sn. state_after lines (Suc n) = Inr sn \<and> readings_found sn = readings_found sh"
    by simp
  with sh show ?thesis by blast
qed

lemma first_occurrence_closed:
  assumes "h < n" "n < length lines"
    and "detect keywords_dict (strip (lines ! h)) = Some T"
    and "\<forall>j<h. detect keywords_dict (strip (lines ! j)) \<noteq> Some T"
    and "\<forall>j. h < j \<and> j < n \<longrightarrow> detect keywords_dict (strip (lines ! j)) = None"
    and "detect keywords_dict (strip (lines ! n)) = Some T'"
    and "body_lines lines h n (if list_ex isdigit (strip (lines ! Suc h))
                               then strip (lines ! Suc h) else []) \<noteq> []"
  shows "\<exists>out. segmentation_core lines = Inr out \<and>
     filter (\<lambda>r. rtype r = T) out =
       [\<lparr>rtype = T, title = strip (lines ! n),
         reference = (if list_ex isdigit (strip (lines ! Suc h))
                      then strip (lines ! Suc h) else []),
         rtext = strip (join '' '' (body_lines lines h n
                   (if list_ex isdigit (strip (lines ! Suc h))
                    then strip (lines ! Suc h) else [])))\<rparr>]"
proof -
  let ?ref = "if list_ex isdigit (strip (lines ! Suc h)) then strip (lines ! Suc h) else []"
  from assms(1,2) have a: "Suc h < length lines" "Suc h \<le> n" "n \<le> length lines"
    and h: "h < length lines" "h \<le> length lines" by simp_all
  obtain s0 where s0: "state_after lines h = Inr s0" using state_after_total by blast
  from not_seen_not_recorded[OF h(2) assms(4) s0]
  have none0: "readings_found s0 T = None" and cs0: "current_section s0 \<noteq> Some T" by simp_all
  from open_section_state[OF a(1) assms(3) a(2,3) assms(5)]
  obtain sh st where sh: "state_after lines (Suc h) = Inr sh"
    and st: "state_after lines n = Inr st" and cs: "current_section st = Some T"
    and crh: "current_ref sh = ?ref" and cr: "current_ref st = current_ref sh"
    and rf: "readings_found st = readings_found sh"
    and buf: "buffer st = body_lines lines h n (current_ref sh)"
    by blast
  from state_after_header[OF h(1) s0 assms(3)] sh
  have "readings_found sh T = readings_found (save_section (strip (lines ! h)) s0) T" by auto
  also from cs0 have "\<dots> = readings_found s0 T" by (rule save_section_other)
  finally have "readings_found st T = None" using none0 rf by simp
  moreover from buf crh assms(7) have "buffer st \<noteq> []" by simp
  ultimately have "\<exists>out. segmentation_core lines = Inr out \<and>
     filter (\<lambda>r. rtype r = T) out =
       [\<lparr>rtype = T, title = strip (lines ! n), reference = current_ref st,
         rtext = strip (join '' '' (buffer st))\<rparr>]"
    using assms(2,6) st cs by (intro closed_by_header) auto
  with buf cr crh show ?thesis by simp
qed

subsection \<open>Stripping a join of stripped lines\<close>

lemma strip_id:
  assumes "s \<noteq> []" "\<not> isspace (hd s)" "\<not> isspace (last s)"
  shows "strip s = s"
proof -
  from assms(1,2) have d: "dropWhile isspace s = s" by (cases s) auto
  from assms(1,3) have "dropWhile isspace (rev s) = rev s"
    by (cases "rev s") (auto simp: hd_rev[symmetric] simp del: hd_rev)
  with d show ?thesis by (simp add: strip_def)
qed

lemma last_dropWhile: "dropWhile P xs \<noteq> [] \<Longrightarrow> last (dropWhile P xs) = last xs"
  by (metis last_appendR takeWhile_dropWhile_id)

lemma strip_ends:
  assumes "strip s \<noteq> []"
  shows "\<not> isspace (hd (strip s)) \<and> \<not> isspace (last (strip s))"
proof -
  let ?d = "dropWhile isspace s"
  let ?e = "dropWhile isspace (rev ?d)"
  from assms have e: "?e \<noteq> []" by (simp add: strip_def)
  have d: "?d \<noteq> []"
  proof
    assume a: "?d = []"
    have "?e = []" unfolding a by simp
    with e show False by contradiction
  qed
  from e have "\<not> isspace (hd ?e)" by (rule hd_dropWhile)
  moreover from e have "last (strip s) = hd ?e" by (simp add: strip_def last_rev)
  moreover from e have "hd (strip s) = last ?e" by (simp add: strip_def hd_rev)
  moreover from e have "last ?e = last (rev ?d)" by (rule last_dropWhile)
  moreover from d have "last (rev ?d) = hd ?d" by (simp add: last_rev)
  moreover from d have "\<not> isspace (hd ?d)" by (rule hd_dropWhile)
  ultimately show ?thesis by simp
qed

lemma join_ends:
  "xs \<noteq> [] \<Longrightarrow> \<forall>x\<in>set xs. x \<noteq> [] \<Longrightarrow>
     join sep xs \<noteq> [] \<and> hd (join sep xs) = hd (hd xs) \<and> last (join sep xs) = last (last xs)"
  by (induction sep xs rule: join.induct) auto

lemma strip_join_stripped:
  assumes "xs \<noteq> []" "\<forall>x\<in>set xs. x \<noteq> [] \<and> \<not> isspace (hd x) \<and> \<not> isspace (last x)"
  shows "strip (join sep xs) = join sep xs"
proof -
  from assms have j: "join sep xs \<noteq> [] \<and> hd (join sep xs) = hd (hd xs) \<and>
      last (join sep xs) = last (last xs)"
    by (intro join_ends) auto
  from assms(1) have "hd xs \<in> set xs" "last xs \<in> set xs" by simp_all
  with assms(2) have "\<not> isspace (hd (hd xs))" "\<not> isspace (last (last xs))" by auto
  with j show ?thesis by (intro strip_id) simp_all
qed

lemma body_lines_stripped:
  "\<forall>x\<in>set (body_lines lines h n ref). x \<noteq> [] \<and> \<not> isspace (hd x) \<and> \<not> isspace (last x)"
  by (auto simp: body_lines_def strip_ends)

lemma strip_join_body:
  "body_lines lines h n ref \<noteq> [] \<Longrightarrow>
     strip (join sep (body_lines lines h n ref)) = join sep (body_lines lines h n ref)"
  by (rule strip_join_stripped) (simp_all add: body_lines_stripped)

subsection \<open>Ranges of indices as lists\<close>

lemma between_list_all: "(\<forall>j. h < j \<and> j < n \<longrightarrow> P j) \<longleftrightarrow> list_all P [Suc h..<n]"
  by (auto simp: list_all_iff)

subsection \<open>A recorded reading stays\<close>

lemma recorded_stays:
  assumes "state_after lines a = Inr sa" "readings_found sa k = Some r" "a \<le> b"
  shows "\<exists>sb. state_after lines b = Inr sb \<and> readings_found sb k = Some r"
proof -
  obtain sb where sb: "state_after lines b = Inr sb" using state_after_total by blast
  from assms(3,1) sb assms(2) have "readings_found sb k = Some r" by (rule state_after_mono)
  with sb show ?thesis by blast
qed

section \<open>The claims of the specification\<close>

subsection \<open>Shape of the output\<close>

text \<open>
  Claim C1. For every list of input lines the core returns a list of at most four
  readings, no two of them of the same type, and their types, in output order, form a
  subsequence of first_reading, psalm, second_reading, gospel, whatever the order of
  the header lines in the input.
\<close>

theorem output_shape:
  "\<exists>out. segmentation_core lines = Inr out \<and> length out \<le> 4 \<and>
     distinct (map rtype out) \<and>
     subseq (map rtype out) [''first_reading'', ''psalm'', ''second_reading'', ''gospel'']"
proof -
  obtain st where core: "segmentation_core lines =
      Inr (List.map_filter (readings_found (save_last st)) ordered_keys)"
    and ok: "found_ok lines (readings_found (save_last st))"
    using core_total_shape by blast
  let ?rf = "readings_found (save_last st)"
  let ?out = "List.map_filter ?rf ordered_keys"
  from ok have "\<forall>k r. ?rf k = Some r \<longrightarrow> rtype r = k" by (simp add: found_ok_def)
  then have types: "map rtype ?out = filter (\<lambda>k. ?rf k \<noteq> None) ordered_keys"
    by (rule map_filter_types)
  have "length (map rtype ?out) \<le> length ordered_keys"
    unfolding types by (rule length_filter_le)
  then have len: "length ?out \<le> 4" by (simp add: ordered_keys_def)
  have "distinct ordered_keys" by (simp add: ordered_keys_def)
  then have dist: "distinct (map rtype ?out)" unfolding types by (rule distinct_filter)
  have "subseq (map rtype ?out) ordered_keys" unfolding types by (rule subseq_filter_left)
  then have sub: "subseq (map rtype ?out)
      [''first_reading'', ''psalm'', ''second_reading'', ''gospel'']"
    by (simp add: ordered_keys_def)
  from core len dist sub show ?thesis by blast
qed

subsection \<open>Titles\<close>

text \<open>
  Claim C2. A reading gets its title in one of two ways. When a header line at index
  \<open>i\<close> closes an open section whose buffer is not empty and whose type is not recorded
  yet, the reading in the output for that type is titled with the stripped text of that
  closing header line (the new header, not the one that opened the section). When the
  section open at the end of the input has a buffer that is not empty and a type not
  recorded yet, the reading in the output is titled with the title-cased type name:
  First Reading, Psalm, Second Reading or Gospel. Every title in the output comes from
  one of these two sources.
\<close>

theorem title_paths:
  "(i < length lines \<and> state_after lines i = Inr st \<and> current_section st = Some S \<and>
    buffer st \<noteq> [] \<and> readings_found st S = None \<and>
    detect keywords_dict (strip (lines ! i)) = Some T \<longrightarrow>
      (\<exists>out. segmentation_core lines = Inr out \<and>
         filter (\<lambda>r. rtype r = S) out =
           [\<lparr>rtype = S, title = strip (lines ! i), reference = current_ref st,
             rtext = strip (join '' '' (buffer st))\<rparr>])) \<and>
   (state_after lines (length lines) = Inr st' \<and> current_section st' = Some S' \<and>
    buffer st' \<noteq> [] \<and> readings_found st' S' = None \<longrightarrow>
      (\<exists>out. segmentation_core lines = Inr out \<and>
         filter (\<lambda>r. rtype r = S') out =
           [\<lparr>rtype = S', title = str_title (replace_underscore S'),
             reference = current_ref st', rtext = strip (join '' '' (buffer st'))\<rparr>])) \<and>
   (\<exists>out. segmentation_core lines = Inr out \<and>
      list_all (\<lambda>r. (\<exists>l\<in>set lines. detect keywords_dict (strip l) \<noteq> None \<and>
                       title r = strip l) \<or>
                    title r = str_title (replace_underscore (rtype r))) out) \<and>
   map (\<lambda>k. str_title (replace_underscore k)) ordered_keys =
     [''First Reading'', ''Psalm'', ''Second Reading'', ''Gospel'']"
  using closed_by_header[of i lines st S T] closed_at_end[of lines st' S']
    titles_two_sources[of lines] type_titles
  by blast

text \<open>
  Both paths on the input Primera Lectura, uno, Evangelio, dos: the first reading is
  closed by the header Evangelio and titled with it, the gospel is closed at the end of
  the input and titled Gospel.
\<close>

theorem title_paths_witness:
  "(\<exists>out. segmentation_core [''Primera Lectura'', ''uno'', ''Evangelio'', ''dos''] = Inr out \<and>
      filter (\<lambda>r. rtype r = ''first_reading'') out =
        [\<lparr>rtype = ''first_reading'', title = ''Evangelio'', reference = [],
          rtext = ''uno''\<rparr>]) \<and>
   (\<exists>out. segmentation_core [''Primera Lectura'', ''uno'', ''Evangelio'', ''dos''] = Inr out \<and>
      filter (\<lambda>r. rtype r = ''gospel'') out =
        [\<lparr>rtype = ''gospel'', title = ''Gospel'', reference = [], rtext = ''dos''\<rparr>])"
proof -
  let ?L = "[''Primera Lectura'', ''uno'', ''Evangelio'', ''dos'']"
  obtain st where st: "state_after ?L 2 = Inr st" using state_after_total by blast
  obtain st' where st': "state_after ?L (length ?L) = Inr st'"
    using state_after_total by blast
  have e: "current_section (projr (state_after ?L 2)) = Some ''first_reading''"
    "buffer (projr (state_after ?L 2)) = [''uno'']"
    "readings_found (projr (state_after ?L 2)) ''first_reading'' = None"
    "current_ref (projr (state_after ?L 2)) = []"
    by code_simp+
  have e': "current_section (projr (state_after ?L (length ?L))) = Some ''gospel''"
    "buffer (projr (state_after ?L (length ?L))) = [''dos'']"
    "readings_found (projr (state_after ?L (length ?L))) ''gospel'' = None"
    "current_ref (projr (state_after ?L (length ?L))) = []"
    by code_simp+
  have c: "current_section st = Some ''first_reading''" "buffer st = [''uno'']"
    "readings_found st ''first_reading'' = None" "current_ref st = []"
    using e unfolding st by simp_all
  have c': "current_section st' = Some ''gospel''" "buffer st' = [''dos'']"
    "readings_found st' ''gospel'' = None" "current_ref st' = []"
    using e' unfolding st' by simp_all
  have d: "(2::nat) < length ?L" "detect keywords_dict (strip (?L ! 2)) = Some ''gospel''"
    "strip (join '' '' [''uno'']) = ''uno''" "strip (join '' '' [''dos'']) = ''dos''"
    "str_title (replace_underscore ''gospel'') = ''Gospel''" "strip (?L ! 2) = ''Evangelio''"
    by code_simp+
  note t = title_paths[of 2 ?L st "''first_reading''" "''gospel''" st' "''gospel''"]
  have h1: "2 < length ?L \<and> state_after ?L 2 = Inr st \<and>
      current_section st = Some ''first_reading'' \<and> buffer st \<noteq> [] \<and>
      readings_found st ''first_reading'' = None \<and>
      detect keywords_dict (strip (?L ! 2)) = Some ''gospel''"
    using st c d(1,2) by simp
  have h2: "state_after ?L (length ?L) = Inr st' \<and> current_section st' = Some ''gospel'' \<and>
      buffer st' \<noteq> [] \<and> readings_found st' ''gospel'' = None"
    using st' c' by simp
  from mp[OF conjunct1[OF t] h1] have r1: "\<exists>out. segmentation_core ?L = Inr out \<and>
      filter (\<lambda>r. rtype r = ''first_reading'') out =
        [\<lparr>rtype = ''first_reading'', title = ''Evangelio'', reference = [],
          rtext = ''uno''\<rparr>]"
    unfolding c d(3,6) .
  from mp[OF conjunct1[OF conjunct2[OF t]] h2] have r2: "\<exists>out. segmentation_core ?L = Inr out \<and>
      filter (\<lambda>r. rtype r = ''gospel'') out =
        [\<lparr>rtype = ''gospel'', title = ''Gospel'', reference = [], rtext = ''dos''\<rparr>]"
    unfolding c' d(4,5) .
  from r1 r2 show ?thesis by (rule conjI)
qed

subsection \<open>The reference line\<close>

text \<open>
  Claim C3 as the specification states it fails when the line after a header is itself a
  header line. On the input Primera Lectura, Evangelio, cuerpo the line after the first
  header has no digit, yet it is not buffered as body text: it is classified as a header,
  closes the first reading with an empty buffer and opens the gospel. After the second
  iteration the buffer is empty, and the only reading in the output is the gospel.
\<close>

theorem header_after_header_counterexample:
  "detect keywords_dict (strip ([''Primera Lectura'', ''Evangelio'', ''cuerpo''] ! 0)) =
     Some ''first_reading'' \<and>
   \<not> list_ex isdigit (strip ([''Primera Lectura'', ''Evangelio'', ''cuerpo''] ! 1)) \<and>
   buffer (projr (state_after [''Primera Lectura'', ''Evangelio'', ''cuerpo''] 2)) = [] \<and>
   current_section (projr (state_after [''Primera Lectura'', ''Evangelio'', ''cuerpo''] 2)) =
     Some ''gospel'' \<and>
   segmentation_core [''Primera Lectura'', ''Evangelio'', ''cuerpo''] =
     Inr [\<lparr>rtype = ''gospel'', title = ''Gospel'', reference = [], rtext = ''cuerpo''\<rparr>]"
  by code_simp

text \<open>
  Claim C3, amended. Let the line at index \<open>h\<close> be a header of type \<open>T\<close> with a line
  after it, and let no line strictly between \<open>h\<close> and \<open>n\<close> be a header. After the
  header the section \<open>T\<close> is open and its reference is the stripped next line when that
  line has a digit, and empty otherwise; the section and its reference stay the same up to
  \<open>n\<close>, and the buffer holds exactly the stripped lines in between that are not blank
  and differ from the reference. So with a digit the next line is not among the buffered
  lines; without a digit the next line, when it is not blank and not a header itself, is
  the first buffered line.
\<close>

theorem reference_lookahead:
  assumes "Suc h < length lines" "detect keywords_dict (strip (lines ! h)) = Some T"
    and "Suc h \<le> n" "n \<le> length lines"
    and "\<forall>j. h < j \<and> j < n \<longrightarrow> detect keywords_dict (strip (lines ! j)) = None"
  shows "\<exists>sh st. state_after lines (Suc h) = Inr sh \<and> state_after lines n = Inr st \<and>
     current_section sh = Some T \<and> current_section st = Some T \<and>
     current_ref sh = (if list_ex isdigit (strip (lines ! Suc h))
                       then strip (lines ! Suc h) else []) \<and>
     current_ref st = current_ref sh \<and>
     buffer st = body_lines lines h n (current_ref sh) \<and>
     (list_ex isdigit (strip (lines ! Suc h)) \<longrightarrow> strip (lines ! Suc h) \<notin> set (buffer st)) \<and>
     (\<not> list_ex isdigit (strip (lines ! Suc h)) \<and> strip (lines ! Suc h) \<noteq> [] \<and> Suc h < n \<longrightarrow>
        buffer st \<noteq> [] \<and> hd (buffer st) = strip (lines ! Suc h))"
proof -
  from open_section_state[OF assms]
  obtain sh st where sh: "state_after lines (Suc h) = Inr sh"
    and st: "state_after lines n = Inr st"
    and cs: "current_section sh = Some T" "current_section st = Some T"
    and crh: "current_ref sh = (if list_ex isdigit (strip (lines ! Suc h))
                       then strip (lines ! Suc h) else [])"
    and cr: "current_ref st = current_ref sh"
    and buf: "buffer st = body_lines lines h n (current_ref sh)"
    by blast
  have dig: "list_ex isdigit (strip (lines ! Suc h)) \<longrightarrow> strip (lines ! Suc h) \<notin> set (buffer st)"
  proof
    assume "list_ex isdigit (strip (lines ! Suc h))"
    with crh have "current_ref sh = strip (lines ! Suc h)" by simp
    with buf show "strip (lines ! Suc h) \<notin> set (buffer st)"
      using body_lines_excludes[of "current_ref sh" lines h n] by simp
  qed
  have nodig: "\<not> list_ex isdigit (strip (lines ! Suc h)) \<and> strip (lines ! Suc h) \<noteq> [] \<and> Suc h < n \<longrightarrow>
        buffer st \<noteq> [] \<and> hd (buffer st) = strip (lines ! Suc h)"
  proof
    assume a: "\<not> list_ex isdigit (strip (lines ! Suc h)) \<and> strip (lines ! Suc h) \<noteq> [] \<and> Suc h < n"
    with crh have "current_ref sh = []" by simp
    with buf have "buffer st = body_lines lines h n []" by simp
    with a assms(1) show "buffer st \<noteq> [] \<and> hd (buffer st) = strip (lines ! Suc h)"
      using body_lines_head[of h n lines] by simp
  qed
  from sh st cs crh cr buf dig nodig show ?thesis by blast
qed

text \<open>
  With a digit: Evangelio, Mt 5, a gives the reference Mt 5 and the buffer a. Without:
  Evangelio, a, b gives an empty reference and the buffer a, b.
\<close>

theorem reference_lookahead_witness:
  "(\<exists>sh st. state_after [''Evangelio'', ''Mt 5'', ''a''] (Suc 0) = Inr sh \<and>
      state_after [''Evangelio'', ''Mt 5'', ''a''] 3 = Inr st \<and>
      current_ref sh = ''Mt 5'' \<and> buffer st = [''a'']) \<and>
   (\<exists>sh st. state_after [''Evangelio'', ''a'', ''b''] (Suc 0) = Inr sh \<and>
      state_after [''Evangelio'', ''a'', ''b''] 3 = Inr st \<and>
      current_ref sh = [] \<and> buffer st = [''a'', ''b''] \<and> hd (buffer st) = ''a'')"
proof -
  let ?L = "[''Evangelio'', ''Mt 5'', ''a'']"
  let ?M = "[''Evangelio'', ''a'', ''b'']"
  have l: "Suc 0 < length ?L" "Suc 0 \<le> 3" "3 \<le> length ?L"
    "Suc 0 < length ?M" "3 \<le> length ?M" by simp_all
  have hl: "detect keywords_dict (strip (?L ! 0)) = Some ''gospel''"
    and hm: "detect keywords_dict (strip (?M ! 0)) = Some ''gospel''"
    by code_simp+
  have "list_all (\<lambda>j. detect keywords_dict (strip (?L ! j)) = None) [Suc 0..<3]"
    by code_simp
  then have bl: "\<forall>j. 0 < j \<and> j < 3 \<longrightarrow> detect keywords_dict (strip (?L ! j)) = None"
    by (simp only: between_list_all)
  have "list_all (\<lambda>j. detect keywords_dict (strip (?M ! j)) = None) [Suc 0..<3]"
    by code_simp
  then have bm: "\<forall>j. 0 < j \<and> j < 3 \<longrightarrow> detect keywords_dict (strip (?M ! j)) = None"
    by (simp only: between_list_all)
  have el: "(if list_ex isdigit (strip (?L ! Suc 0)) then strip (?L ! Suc 0) else []) = ''Mt 5''"
    "body_lines ?L 0 3 ''Mt 5'' = [''a'']"
    by code_simp+
  have em: "(if list_ex isdigit (strip (?M ! Suc 0)) then strip (?M ! Suc 0) else []) = []"
    "body_lines ?M 0 3 [] = [''a'', ''b'']"
    by code_simp+
  from reference_lookahead[OF l(1) hl l(2,3) bl]
  obtain sh st where "state_after ?L (Suc 0) = Inr sh" "state_after ?L 3 = Inr st"
    "current_ref sh = (if list_ex isdigit (strip (?L ! Suc 0)) then strip (?L ! Suc 0) else [])"
    "buffer st = body_lines ?L 0 3 (current_ref sh)"
    by blast
  then have r1: "\<exists>sh st. state_after ?L (Suc 0) = Inr sh \<and> state_after ?L 3 = Inr st \<and>
      current_ref sh = ''Mt 5'' \<and> buffer st = [''a'']"
    using el by (metis (no_types))
  from reference_lookahead[OF l(4) hm l(2,5) bm]
  obtain sh' st' where "state_after ?M (Suc 0) = Inr sh'" "state_after ?M 3 = Inr st'"
    "current_ref sh' = (if list_ex isdigit (strip (?M ! Suc 0)) then strip (?M ! Suc 0) else [])"
    "buffer st' = body_lines ?M 0 3 (current_ref sh')"
    by blast
  with em have "state_after ?M (Suc 0) = Inr sh'" "state_after ?M 3 = Inr st'"
    "current_ref sh' = []" "buffer st' = [''a'', ''b'']" by simp_all
  then have r2: "\<exists>sh st. state_after ?M (Suc 0) = Inr sh \<and> state_after ?M 3 = Inr st \<and>
      current_ref sh = [] \<and> buffer st = [''a'', ''b''] \<and> hd (buffer st) = ''a''"
    by (intro exI[of _ sh'] exI[of _ st']) simp
  from r1 r2 show ?thesis by (rule conjI)
qed

subsection \<open>Repeated section types\<close>

text \<open>
  Claim C4 as the specification states it fails when the first occurrence closes with an
  empty buffer. On the input Evangelio, Evangelio, cuerpo both header lines are of type
  gospel; the first occurrence records nothing, and the gospel in the output is the second
  occurrence, whose text is a line seen after the second header.
\<close>

theorem first_seen_wins_counterexample:
  "detect keywords_dict (strip ([''Evangelio'', ''Evangelio'', ''cuerpo''] ! 0)) = Some ''gospel'' \<and>
   detect keywords_dict (strip ([''Evangelio'', ''Evangelio'', ''cuerpo''] ! 1)) = Some ''gospel'' \<and>
   readings_found (projr (state_after [''Evangelio'', ''Evangelio'', ''cuerpo''] 2)) ''gospel'' = None \<and>
   segmentation_core [''Evangelio'', ''Evangelio'', ''cuerpo''] =
     Inr [\<lparr>rtype = ''gospel'', title = ''Gospel'', reference = [], rtext = ''cuerpo''\<rparr>]"
  by code_simp

text \<open>
  Claim C4, amended. Let the header at index \<open>h\<close> be the first header of type \<open>T\<close>,
  let the header at index \<open>n\<close> be the next header line of any type, and let the body of
  the section in between not be empty. Then the reading of type \<open>T\<close> in the output is
  the one recorded at \<open>n\<close>, whatever follows: its title is the header line at \<open>n\<close>,
  its reference is the one looked up after \<open>h\<close>, and its text is the body lines between
  \<open>h\<close> and \<open>n\<close> joined by single spaces. In general, a reading once recorded under a
  type stays recorded unchanged after every later iteration and is the reading of that
  type in the output: later closes of the same type are dropped.
\<close>

theorem first_recorded_wins:
  "(h < n \<and> n < length lines \<and>
    detect keywords_dict (strip (lines ! h)) = Some T \<and>
    (\<forall>j<h. detect keywords_dict (strip (lines ! j)) \<noteq> Some T) \<and>
    (\<forall>j. h < j \<and> j < n \<longrightarrow> detect keywords_dict (strip (lines ! j)) = None) \<and>
    detect keywords_dict (strip (lines ! n)) = Some T' \<and>
    body_lines lines h n (if list_ex isdigit (strip (lines ! Suc h))
                          then strip (lines ! Suc h) else []) \<noteq> [] \<longrightarrow>
      (\<exists>out. segmentation_core lines = Inr out \<and>
         filter (\<lambda>r. rtype r = T) out =
           [\<lparr>rtype = T, title = strip (lines ! n),
             reference = (if list_ex isdigit (strip (lines ! Suc h))
                          then strip (lines ! Suc h) else []),
             rtext = join '' '' (body_lines lines h n
                       (if list_ex isdigit (strip (lines ! Suc h))
                        then strip (lines ! Suc h) else []))\<rparr>])) \<and>
   (state_after lines a = Inr sa \<and> readings_found sa k = Some r \<and> a \<le> b \<longrightarrow>
      (\<exists>sb. state_after lines b = Inr sb \<and> readings_found sb k = Some r) \<and>
      (\<exists>out. segmentation_core lines = Inr out \<and> filter (\<lambda>r'. rtype r' = k) out = [r]))"
proof (intro conjI impI)
  assume hyp: "h < n \<and> n < length lines \<and>
    detect keywords_dict (strip (lines ! h)) = Some T \<and>
    (\<forall>j<h. detect keywords_dict (strip (lines ! j)) \<noteq> Some T) \<and>
    (\<forall>j. h < j \<and> j < n \<longrightarrow> detect keywords_dict (strip (lines ! j)) = None) \<and>
    detect keywords_dict (strip (lines ! n)) = Some T' \<and>
    body_lines lines h n (if list_ex isdigit (strip (lines ! Suc h))
                          then strip (lines ! Suc h) else []) \<noteq> []"
  from hyp have x: "\<exists>out. segmentation_core lines = Inr out \<and>
         filter (\<lambda>r. rtype r = T) out =
           [\<lparr>rtype = T, title = strip (lines ! n),
             reference = (if list_ex isdigit (strip (lines ! Suc h))
                          then strip (lines ! Suc h) else []),
             rtext = strip (join '' '' (body_lines lines h n
                       (if list_ex isdigit (strip (lines ! Suc h))
                        then strip (lines ! Suc h) else [])))\<rparr>]"
    by (intro first_occurrence_closed[of h n lines T T']) simp_all
  from hyp have "body_lines lines h n
               (if list_ex isdigit (strip (lines ! Suc h))
                then strip (lines ! Suc h) else []) \<noteq> []"
    by blast
  then have y: "strip (join '' '' (body_lines lines h n
               (if list_ex isdigit (strip (lines ! Suc h))
                then strip (lines ! Suc h) else []))) =
      join '' '' (body_lines lines h n
               (if list_ex isdigit (strip (lines ! Suc h))
                then strip (lines ! Suc h) else []))"
    by (rule strip_join_body)
  from x show "\<exists>out. segmentation_core lines = Inr out \<and>
         filter (\<lambda>r. rtype r = T) out =
           [\<lparr>rtype = T, title = strip (lines ! n),
             reference = (if list_ex isdigit (strip (lines ! Suc h))
                          then strip (lines ! Suc h) else []),
             rtext = join '' '' (body_lines lines h n
                       (if list_ex isdigit (strip (lines ! Suc h))
                        then strip (lines ! Suc h) else []))\<rparr>]"
    unfolding y .
next
  assume a: "state_after lines a = Inr sa \<and> readings_found sa k = Some r \<and> a \<le> b"
  then show "\<exists>sb. state_after lines b = Inr sb \<and> readings_found sb k = Some r"
    using recorded_stays[of lines a sa k r b] by simp
  from a show "\<exists>out. segmentation_core lines = Inr out \<and> filter (\<lambda>r'. rtype r' = k) out = [r]"
    using recorded_in_output[of lines a sa k r] by simp
qed

text \<open>
  On Evangelio, Mt 5, a, Evangelio, b the gospel in the output is the first occurrence,
  with text a; the reading recorded after four iterations is still there after five.
\<close>

theorem first_recorded_wins_witness:
  "(\<exists>out. segmentation_core [''Evangelio'', ''Mt 5'', ''a'', ''Evangelio'', ''b''] = Inr out \<and>
      filter (\<lambda>r. rtype r = ''gospel'') out =
        [\<lparr>rtype = ''gospel'', title = ''Evangelio'', reference = ''Mt 5'', rtext = ''a''\<rparr>]) \<and>
   (\<exists>sb. state_after [''Evangelio'', ''Mt 5'', ''a'', ''Evangelio'', ''b''] 5 = Inr sb \<and>
      readings_found sb ''gospel'' =
        Some \<lparr>rtype = ''gospel'', title = ''Evangelio'', reference = ''Mt 5'', rtext = ''a''\<rparr>)"
proof -
  let ?L = "[''Evangelio'', ''Mt 5'', ''a'', ''Evangelio'', ''b'']"
  let ?r = "\<lparr>rtype = ''gospel'', title = ''Evangelio'', reference = ''Mt 5'', rtext = ''a''\<rparr>"
  obtain sa where sa: "state_after ?L 4 = Inr sa" using state_after_total by blast
  have "readings_found (projr (state_after ?L 4)) ''gospel'' = Some ?r" by code_simp
  then have rec: "readings_found sa ''gospel'' = Some ?r" unfolding sa by simp
  have hd: "detect keywords_dict (strip (?L ! 0)) = Some ''gospel''"
    "detect keywords_dict (strip (?L ! 3)) = Some ''gospel''"
    by code_simp+
  have "list_all (\<lambda>j. detect keywords_dict (strip (?L ! j)) = None) [Suc 0..<3]"
    by code_simp
  then have btw: "\<forall>j. 0 < j \<and> j < 3 \<longrightarrow> detect keywords_dict (strip (?L ! j)) = None"
    by (simp only: between_list_all)
  have ev: "(if list_ex isdigit (strip (?L ! Suc 0)) then strip (?L ! Suc 0) else []) = ''Mt 5''"
    "body_lines ?L 0 3 ''Mt 5'' = [''a'']" "join '' '' [''a''] = ''a''"
    "strip (?L ! 3) = ''Evangelio''"
    by code_simp+
  note t = first_recorded_wins[of 0 3 ?L "''gospel''" "''gospel''" 4 sa "''gospel''" ?r 5]
  have h1: "0 < (3::nat) \<and> 3 < length ?L \<and>
    detect keywords_dict (strip (?L ! 0)) = Some ''gospel'' \<and>
    (\<forall>j<0. detect keywords_dict (strip (?L ! j)) \<noteq> Some ''gospel'') \<and>
    (\<forall>j. 0 < j \<and> j < 3 \<longrightarrow> detect keywords_dict (strip (?L ! j)) = None) \<and>
    detect keywords_dict (strip (?L ! 3)) = Some ''gospel'' \<and>
    body_lines ?L 0 3 (if list_ex isdigit (strip (?L ! Suc 0))
                          then strip (?L ! Suc 0) else []) \<noteq> []"
    using hd btw unfolding ev by simp
  have h2: "state_after ?L 4 = Inr sa \<and> readings_found sa ''gospel'' = Some ?r \<and> (4::nat) \<le> 5"
    using sa rec by simp
  from mp[OF conjunct1[OF t] h1] have r1: "\<exists>out. segmentation_core ?L = Inr out \<and>
      filter (\<lambda>r. rtype r = ''gospel'') out = [?r]"
    unfolding ev .
  from mp[OF conjunct2[OF t] h2] have r2: "\<exists>sb. state_after ?L 5 = Inr sb \<and>
      readings_found sb ''gospel'' = Some ?r"
    by (rule conjunct1)
  from r1 r2 show ?thesis by (rule conjI)
qed

subsection \<open>The concrete scenario\<close>

text \<open>
  Claim C5 as the specification states it fails: on the ten lines of the scenario the core
  does not return three readings of types first_reading, psalm, gospel.
\<close>

theorem concrete_scenario_counterexample:
  "\<not> (length (projr (segmentation_core
        [''Intro boilerplate'', ''Primera Lectura'', ''Is 25, 6-10'',
         ''Texto de la primera lectura.'', ''Salmo Responsorial'', ''Sal 22'',
         ''Texto del salmo.'', ''Evangelio'', ''Mt 5, 1-12'', ''Texto del evangelio.''])) = 3 \<and>
      map rtype (projr (segmentation_core
        [''Intro boilerplate'', ''Primera Lectura'', ''Is 25, 6-10'',
         ''Texto de la primera lectura.'', ''Salmo Responsorial'', ''Sal 22'',
         ''Texto del salmo.'', ''Evangelio'', ''Mt 5, 1-12'', ''Texto del evangelio.''])) =
        [''first_reading'', ''psalm'', ''gospel''])"
  by code_simp

text \<open>
  Claim C5, amended. On the ten lines of the scenario the core returns exactly one
  reading: the psalm, titled Evangelio, with reference Sal 22 and text
  Texto del salmo. The lines Texto de la primera lectura. and Texto del evangelio.
  contain a keyword phrase and are classified as headers, so the first reading and the
  gospel close with empty buffers. With these two body lines replaced by
  Texto de la lectura. and Texto del dia., the core returns three readings in the order
  first_reading, psalm, gospel, the first with reference Is 25, 6-10 and text
  Texto de la lectura.
\<close>

theorem concrete_scenario:
  "segmentation_core
     [''Intro boilerplate'', ''Primera Lectura'', ''Is 25, 6-10'',
      ''Texto de la primera lectura.'', ''Salmo Responsorial'', ''Sal 22'',
      ''Texto del salmo.'', ''Evangelio'', ''Mt 5, 1-12'', ''Texto del evangelio.''] =
     Inr [\<lparr>rtype = ''psalm'', title = ''Evangelio'', reference = ''Sal 22'',
           rtext = ''Texto del salmo.''\<rparr>] \<and>
   detect keywords_dict ''Texto de la primera lectura.'' = Some ''first_reading'' \<and>
   detect keywords_dict ''Texto del evangelio.'' = Some ''gospel'' \<and>
   segmentation_core
     [''Intro boilerplate'', ''Primera Lectura'', ''Is 25, 6-10'',
      ''Texto de la lectura.'', ''Salmo Responsorial'', ''Sal 22'',
      ''Texto del salmo.'', ''Evangelio'', ''Mt 5, 1-12'', ''Texto del dia.''] =
     Inr [\<lparr>rtype = ''first_reading'', title = ''Salmo Responsorial'',
           reference = ''Is 25, 6-10'', rtext = ''Texto de la lectura.''\<rparr>,
          \<lparr>rtype = ''psalm'', title = ''Evangelio'', reference = ''Sal 22'',
           rtext = ''Texto del salmo.''\<rparr>,
          \<lparr>rtype = ''gospel'', title = ''Gospel'', reference = ''Mt 5, 1-12'',
           rtext = ''Texto del dia.''\<rparr>]"
  by code_simp

subsection \<open>The classifier\<close>

text \<open>
  Claim C6. The classifier is a function of the line and the keyword table alone. It
  returns the type of the first keyword, in the order Primera Lectura, Salmo Responsorial,
  Segunda Lectura, Evangelio, whose lower-cased phrase occurs as a contiguous block of the
  lower-cased line, and none when no phrase occurs. A line with two phrases is classified
  by table order: a line with Evangelio before Primera Lectura is a first_reading header.
\<close>

theorem classifier_first_match:
  "detect keywords_dict line = spec_classify line \<and>
   detect keywords_dict line =
     (if sublist (lower ''Primera Lectura'') (lower line) then Some ''first_reading''
      else if sublist (lower ''Salmo Responsorial'') (lower line) then Some ''psalm''
      else if sublist (lower ''Segunda Lectura'') (lower line) then Some ''second_reading''
      else if sublist (lower ''Evangelio'') (lower line) then Some ''gospel''
      else None) \<and>
   detect keywords_dict ''El EVANGELIO sigue a la primera lectura'' = Some ''first_reading'' \<and>
   detect keywords_dict ''Texto sin encabezado'' = None"
proof (intro conjI)
  show "detect keywords_dict line = spec_classify line"
    by (simp add: spec_classify_def detect_find)
  show "detect keywords_dict line =
     (if sublist (lower ''Primera Lectura'') (lower line) then Some ''first_reading''
      else if sublist (lower ''Salmo Responsorial'') (lower line) then Some ''psalm''
      else if sublist (lower ''Segunda Lectura'') (lower line) then Some ''second_reading''
      else if sublist (lower ''Evangelio'') (lower line) then Some ''gospel''
      else None)"
    unfolding lower_keys by (rule detect_unfold)
  show "detect keywords_dict ''El EVANGELIO sigue a la primera lectura'' = Some ''first_reading''"
    by code_simp
  show "detect keywords_dict ''Texto sin encabezado'' = None"
    by code_simp
qed

subsection \<open>Totality\<close>

text \<open>
  Claim C7. For every list of lines the core returns a list of at most four readings of
  the four types and raises nothing; every single iteration returns a state, so the
  lookahead never reads out of range; the empty input and every input without a keyword
  give the empty output.
\<close>

theorem core_total:
  "(\<exists>out. segmentation_core lines = Inr out \<and> length out \<le> 4 \<and>
      set (map rtype out) \<subseteq> set ordered_keys) \<and>
   (\<exists>st'. step lines (i, raw) st = Inr st') \<and>
   (\<exists>sn. state_after lines n = Inr sn) \<and>
   segmentation_core [] = Inr [] \<and>
   ((\<forall>l\<in>set lines. detect keywords_dict (strip l) = None) \<longrightarrow>
      segmentation_core lines = Inr [])"
proof (intro conjI impI)
  obtain s where core: "segmentation_core lines =
      Inr (List.map_filter (readings_found (save_last s)) ordered_keys)"
    and ok: "found_ok lines (readings_found (save_last s))"
    using core_total_shape by blast
  let ?out = "List.map_filter (readings_found (save_last s)) ordered_keys"
  from ok have "\<forall>k r. readings_found (save_last s) k = Some r \<longrightarrow> rtype r = k"
    by (simp add: found_ok_def)
  then have types: "map rtype ?out =
      filter (\<lambda>k. readings_found (save_last s) k \<noteq> None) ordered_keys"
    by (rule map_filter_types)
  have "length (map rtype ?out) \<le> length ordered_keys"
    unfolding types by (rule length_filter_le)
  then have "length ?out \<le> 4" by (simp add: ordered_keys_def)
  moreover have "set (map rtype ?out) \<subseteq> set ordered_keys" unfolding types by auto
  ultimately show "\<exists>out. segmentation_core lines = Inr out \<and> length out \<le> 4 \<and>
      set (map rtype out) \<subseteq> set ordered_keys"
    using core by blast
next
  show "\<exists>st'. step lines (i, raw) st = Inr st'" by (rule step_total)
next
  show "\<exists>sn. state_after lines n = Inr sn" by (rule state_after_total)
next
  show "segmentation_core [] = Inr []" by (rule core_no_header) simp
next
  assume "\<forall>l\<in>set lines. detect keywords_dict (strip l) = None"
  then show "segmentation_core lines = Inr []" by (rule core_no_header)
qed

text \<open>An input without any keyword: Intro, texto 12 and a blank line.\<close>

theorem core_total_witness: "segmentation_core [''Intro'', ''texto 12'', ''  ''] = Inr []"
proof -
  let ?L = "[''Intro'', ''texto 12'', ''  '']"
  have "list_all (\<lambda>l. detect keywords_dict (strip l) = None) ?L" by code_simp
  then have "\<forall>l\<in>set ?L. detect keywords_dict (strip l) = None"
    by (simp only: list_all_iff)
  with core_total[of ?L 0 "[]" init_state 0] show ?thesis by blast
qed

subsection \<open>Texts are not empty\<close>

text \<open>
  Claim C9. Every reading in the output has a text that is not empty. A section whose
  body is empty when the next header closes it (the header right after its own header,
  or after its reference line only) records nothing: the recorded readings after the
  closing header are those after the opening header. A section whose buffer is empty at
  the end of the input records nothing either.
\<close>

theorem nonempty_text:
  "(\<exists>out. segmentation_core lines = Inr out \<and> list_all (\<lambda>r. rtext r \<noteq> []) out) \<and>
   (h < n \<and> n < length lines \<and>
    detect keywords_dict (strip (lines ! h)) = Some T \<and>
    detect keywords_dict (strip (lines ! n)) = Some T' \<and>
    (\<forall>j. h < j \<and> j < n \<longrightarrow> detect keywords_dict (strip (lines ! j)) = None) \<and>
    body_lines lines h n (if list_ex isdigit (strip (lines ! Suc h))
                          then strip (lines ! Suc h) else []) = [] \<longrightarrow>
      (\<exists>sh sn. state_after lines (Suc h) = Inr sh \<and> state_after lines (Suc n) = Inr sn \<and>
         readings_found sn = readings_found sh)) \<and>
   (state_after lines (length lines) = Inr sf \<and> buffer sf = [] \<longrightarrow>
      run init_state lines = Inr sf)"
proof (intro conjI impI)
  obtain st where core: "segmentation_core lines =
      Inr (List.map_filter (readings_found (save_last st)) ordered_keys)"
    and ok: "found_ok lines (readings_found (save_last st))"
    using core_total_shape by blast
  have "list_all (\<lambda>r. rtext r \<noteq> [])
          (List.map_filter (readings_found (save_last st)) ordered_keys)"
    using ok by (auto simp: list_all_iff List.map_filter_def found_ok_def)
  with core show "\<exists>out. segmentation_core lines = Inr out \<and> list_all (\<lambda>r. rtext r \<noteq> []) out"
    by blast
next
  assume "h < n \<and> n < length lines \<and>
    detect keywords_dict (strip (lines ! h)) = Some T \<and>
    detect keywords_dict (strip (lines ! n)) = Some T' \<and>
    (\<forall>j. h < j \<and> j < n \<longrightarrow> detect keywords_dict (strip (lines ! j)) = None) \<and>
    body_lines lines h n (if list_ex isdigit (strip (lines ! Suc h))
                          then strip (lines ! Suc h) else []) = []"
  then show "\<exists>sh sn. state_after lines (Suc h) = Inr sh \<and> state_after lines (Suc n) = Inr sn \<and>
         readings_found sn = readings_found sh"
    by (intro empty_section_records_nothing[of h n lines T T']) simp_all
next
  assume a: "state_after lines (length lines) = Inr sf \<and> buffer sf = []"
  then have "save_last sf = sf"
    by (auto simp: save_last_def save_section_empty_buffer split: option.splits)
  with a show "run init_state lines = Inr sf" by (simp add: run_state_after)
qed

text \<open>
  On Evangelio, Salmo Responsorial, Sal 22, Primera Lectura the gospel is closed by the
  next line, the psalm after its reference line only, and the first reading by the end
  of the input: none of the three closes records a reading.
\<close>

theorem nonempty_text_witness:
  "(\<exists>sh sn. state_after [''Evangelio'', ''Salmo Responsorial'', ''Sal 22'', ''Primera Lectura'']
                (Suc 0) = Inr sh \<and>
      state_after [''Evangelio'', ''Salmo Responsorial'', ''Sal 22'', ''Primera Lectura'']
                (Suc 1) = Inr sn \<and>
      readings_found sn = readings_found sh) \<and>
   (\<exists>sh sn. state_after [''Evangelio'', ''Salmo Responsorial'', ''Sal 22'', ''Primera Lectura'']
                (Suc 1) = Inr sh \<and>
      state_after [''Evangelio'', ''Salmo Responsorial'', ''Sal 22'', ''Primera Lectura'']
                (Suc 3) = Inr sn \<and>
      readings_found sn = readings_found sh) \<and>
   (\<exists>sf. state_after [''Evangelio'', ''Salmo Responsorial'', ''Sal 22'', ''Primera Lectura'']
             (length [''Evangelio'', ''Salmo Responsorial'', ''Sal 22'', ''Primera Lectura'']) =
           Inr sf \<and>
      run init_state [''Evangelio'', ''Salmo Responsorial'', ''Sal 22'', ''Primera Lectura''] =
           Inr sf)"
proof -
  let ?L = "[''Evangelio'', ''Salmo Responsorial'', ''Sal 22'', ''Primera Lectura'']"
  have hd: "detect keywords_dict (strip (?L ! 0)) = Some ''gospel''"
    "detect keywords_dict (strip (?L ! 1)) = Some ''psalm''"
    "detect keywords_dict (strip (?L ! 3)) = Some ''first_reading''"
    by code_simp+
  have "list_all (\<lambda>j. detect keywords_dict (strip (?L ! j)) = None) [Suc 0..<1]"
    "list_all (\<lambda>j. detect keywords_dict (strip (?L ! j)) = None) [Suc 1..<3]"
    by code_simp+
  then have btw: "\<forall>j. 0 < j \<and> j < 1 \<longrightarrow> detect keywords_dict (strip (?L ! j)) = None"
    "\<forall>j. 1 < j \<and> j < 3 \<longrightarrow> detect keywords_dict (strip (?L ! j)) = None"
    by (simp_all only: between_list_all)
  have bd: "body_lines ?L 0 1 (if list_ex isdigit (strip (?L ! Suc 0))
                          then strip (?L ! Suc 0) else []) = []"
    "body_lines ?L 1 3 (if list_ex isdigit (strip (?L ! Suc 1))
                          then strip (?L ! Suc 1) else []) = []"
    by code_simp+
  have h1: "0 < (1::nat) \<and> 1 < length ?L \<and>
    detect keywords_dict (strip (?L ! 0)) = Some ''gospel'' \<and>
    detect keywords_dict (strip (?L ! 1)) = Some ''psalm'' \<and>
    (\<forall>j. 0 < j \<and> j < 1 \<longrightarrow> detect keywords_dict (strip (?L ! j)) = None) \<and>
    body_lines ?L 0 1 (if list_ex isdigit (strip (?L ! Suc 0))
                          then strip (?L ! Suc 0) else []) = []"
    using hd(1,2) btw(1) bd(1) by simp
  have h2: "1 < (3::nat) \<and> 3 < length ?L \<and>
    detect keywords_dict (strip (?L ! 1)) = Some ''psalm'' \<and>
    detect keywords_dict (strip (?L ! 3)) = Some ''first_reading'' \<and>
    (\<forall>j. 1 < j \<and> j < 3 \<longrightarrow> detect keywords_dict (strip (?L ! j)) = None) \<and>
    body_lines ?L 1 3 (if list_ex isdigit (strip (?L ! Suc 1))
                          then strip (?L ! Suc 1) else []) = []"
    using hd(2,3) btw(2) bd(2) by simp
  obtain sf where sf: "state_after ?L (length ?L) = Inr sf" using state_after_total by blast
  have "buffer (projr (state_after ?L (length ?L))) = []" by code_simp
  then have "buffer sf = []" unfolding sf by simp
  with sf have h3: "state_after ?L (length ?L) = Inr sf \<and> buffer sf = []" by simp
  note t1 = nonempty_text[of ?L 0 1 "''gospel''" "''psalm''" sf]
  note t2 = nonempty_text[of ?L 1 3 "''psalm''" "''first_reading''" sf]
  from mp[OF conjunct2[OF conjunct2[OF t1]] h3] sf
  have r3: "\<exists>sf. state_after ?L (length ?L) = Inr sf \<and> run init_state ?L = Inr sf"
    by blast
  from mp[OF conjunct1[OF conjunct2[OF t1]] h1] mp[OF conjunct1[OF conjunct2[OF t2]] h2] r3
  show ?thesis by (intro conjI)
qed

subsection \<open>Exclusion of the reference line\<close>

text \<open>
  Claim C10. The reference is excluded by string equality, not by position. After every
  iteration the reference of the open section is not among the buffered lines. While a
  section is open, a line that is not a header is appended to the buffer when its
  stripped text is not empty and differs from the reference, and leaves the state
  unchanged otherwise. So between a header and any later index without a header in
  between, the buffer is the list of stripped lines that are not blank and differ from
  the reference: a later line equal to the reference is dropped as well, as on
  Evangelio, Mt 5, a, Mt 5, b, whose text is a b.
\<close>

theorem reference_exclusion:
  "(state_after lines n = Inr st \<longrightarrow> current_ref st \<notin> set (buffer st)) \<and>
   (i < length lines \<and> state_after lines i = Inr s \<and> current_section s = Some T \<and>
    detect keywords_dict (strip (lines ! i)) = None \<longrightarrow>
      state_after lines (Suc i) =
        Inr (if strip (lines ! i) \<noteq> [] \<and> strip (lines ! i) \<noteq> current_ref s
             then s\<lparr>buffer := buffer s @ [strip (lines ! i)]\<rparr> else s)) \<and>
   (Suc h < length lines \<and> detect keywords_dict (strip (lines ! h)) = Some T' \<and>
    Suc h \<le> m \<and> m \<le> length lines \<and>
    (\<forall>j. h < j \<and> j < m \<longrightarrow> detect keywords_dict (strip (lines ! j)) = None) \<longrightarrow>
      (\<exists>sm. state_after lines m = Inr sm \<and>
         buffer sm = filter (\<lambda>l. l \<noteq> [] \<and> l \<noteq> current_ref sm)
                       (map strip (take (m - Suc h) (drop (Suc h) lines))))) \<and>
   segmentation_core [''Evangelio'', ''Mt 5'', ''a'', '' Mt 5  '', ''b''] =
     Inr [\<lparr>rtype = ''gospel'', title = ''Gospel'', reference = ''Mt 5'', rtext = ''a b''\<rparr>]"
proof (intro conjI impI)
  assume "state_after lines n = Inr st"
  then have "buffer_ok st" using state_after_ok by blast
  then show "current_ref st \<notin> set (buffer st)" by (simp add: buffer_ok_def)
next
  assume a: "i < length lines \<and> state_after lines i = Inr s \<and> current_section s = Some T \<and>
    detect keywords_dict (strip (lines ! i)) = None"
  then have "section_ok s" using state_after_ok by blast
  with a have "T \<noteq> []" by (auto simp: section_ok_def dest: ordered_keys_nonempty)
  with a show "state_after lines (Suc i) =
        Inr (if strip (lines ! i) \<noteq> [] \<and> strip (lines ! i) \<noteq> current_ref s
             then s\<lparr>buffer := buffer s @ [strip (lines ! i)]\<rparr> else s)"
    by (intro state_after_body[of i lines s T]) simp_all
next
  assume a: "Suc h < length lines \<and> detect keywords_dict (strip (lines ! h)) = Some T' \<and>
    Suc h \<le> m \<and> m \<le> length lines \<and>
    (\<forall>j. h < j \<and> j < m \<longrightarrow> detect keywords_dict (strip (lines ! j)) = None)"
  then have "\<exists>sh st. state_after lines (Suc h) = Inr sh \<and> state_after lines m = Inr st \<and>
     current_section sh = Some T' \<and> current_section st = Some T' \<and>
     current_ref sh = (if list_ex isdigit (strip (lines ! Suc h))
                       then strip (lines ! Suc h) else []) \<and>
     current_ref st = current_ref sh \<and> readings_found st = readings_found sh \<and>
     buffer st = body_lines lines h m (current_ref sh)"
    by (intro open_section_state) simp_all
  then obtain sh st where x: "state_after lines (Suc h) = Inr sh \<and> state_after lines m = Inr st \<and>
     current_section sh = Some T' \<and> current_section st = Some T' \<and>
     current_ref sh = (if list_ex isdigit (strip (lines ! Suc h))
                       then strip (lines ! Suc h) else []) \<and>
     current_ref st = current_ref sh \<and> readings_found st = readings_found sh \<and>
     buffer st = body_lines lines h m (current_ref sh)"
    by (elim exE)
  then have "state_after lines m = Inr st" "current_ref st = current_ref sh"
    "buffer st = body_lines lines h m (current_ref sh)" by simp_all
  then show "\<exists>sm. state_after lines m = Inr sm \<and>
         buffer sm = filter (\<lambda>l. l \<noteq> [] \<and> l \<noteq> current_ref sm)
                       (map strip (take (m - Suc h) (drop (Suc h) lines)))"
    by (simp add: body_lines_def)
next
  show "segmentation_core [''Evangelio'', ''Mt 5'', ''a'', '' Mt 5  '', ''b''] =
     Inr [\<lparr>rtype = ''gospel'', title = ''Gospel'', reference = ''Mt 5'', rtext = ''a b''\<rparr>]"
    by code_simp
qed

text \<open>
  On that input the fourth line repeats the reference: the state after it is the state
  before it.
\<close>

theorem reference_exclusion_witness:
  "(\<exists>s. state_after [''Evangelio'', ''Mt 5'', ''a'', '' Mt 5  '', ''b''] 3 = Inr s \<and>
      state_after [''Evangelio'', ''Mt 5'', ''a'', '' Mt 5  '', ''b''] (Suc 3) = Inr s) \<and>
   (\<exists>sm. state_after [''Evangelio'', ''Mt 5'', ''a'', '' Mt 5  '', ''b''] 5 = Inr sm \<and>
      current_ref sm \<notin> set (buffer sm) \<and>
      buffer sm = filter (\<lambda>l. l \<noteq> [] \<and> l \<noteq> current_ref sm)
        (map strip (take (5 - Suc 0)
           (drop (Suc 0) [''Evangelio'', ''Mt 5'', ''a'', '' Mt 5  '', ''b'']))))"
proof -
  let ?L = "[''Evangelio'', ''Mt 5'', ''a'', '' Mt 5  '', ''b'']"
  obtain s where s: "state_after ?L 3 = Inr s" using state_after_total by blast
  have "current_section (projr (state_after ?L 3)) = Some ''gospel''"
    "current_ref (projr (state_after ?L 3)) = ''Mt 5''"
    by code_simp+
  then have c: "current_section s = Some ''gospel''" "current_ref s = ''Mt 5''"
    unfolding s by simp_all
  have d: "detect keywords_dict (strip (?L ! 3)) = None" "strip (?L ! 3) = ''Mt 5''"
    "detect keywords_dict (strip (?L ! 0)) = Some ''gospel''"
    by code_simp+
  have "list_all (\<lambda>j. detect keywords_dict (strip (?L ! j)) = None) [Suc 0..<5]"
    by code_simp
  then have btw: "\<forall>j. 0 < j \<and> j < 5 \<longrightarrow> detect keywords_dict (strip (?L ! j)) = None"
    by (simp only: between_list_all)
  have h2: "3 < length ?L \<and> state_after ?L 3 = Inr s \<and> current_section s = Some ''gospel'' \<and>
      detect keywords_dict (strip (?L ! 3)) = None"
    using s c(1) d(1) by simp
  have h3: "Suc 0 < length ?L \<and> detect keywords_dict (strip (?L ! 0)) = Some ''gospel'' \<and>
      Suc 0 \<le> 5 \<and> 5 \<le> length ?L \<and>
      (\<forall>j. 0 < j \<and> j < 5 \<longrightarrow> detect keywords_dict (strip (?L ! j)) = None)"
    using d(3) btw by simp
  note t = reference_exclusion[of ?L _ _ 3 s "''gospel''" 0 "''gospel''" 5]
  from mp[OF conjunct1[OF conjunct2[OF t]] h2]
  have "state_after ?L (Suc 3) = Inr s" unfolding d(2) c(2) by simp
  with s have r1: "\<exists>s. state_after ?L 3 = Inr s \<and> state_after ?L (Suc 3) = Inr s" by blast
  from mp[OF conjunct1[OF conjunct2[OF conjunct2[OF t]]] h3]
  obtain sm where sm: "state_after ?L 5 = Inr sm"
    and b: "buffer sm = filter (\<lambda>l. l \<noteq> [] \<and> l \<noteq> current_ref sm)
        (map strip (take (5 - Suc 0) (drop (Suc 0) ?L)))"
    by (elim exE conjE)
  from mp[OF conjunct1[OF reference_exclusion[of ?L 5 sm 3 s "''gospel''" 0 "''gospel''" 5]] sm]
  have "current_ref sm \<notin> set (buffer sm)" .
  with sm b have r2: "\<exists>sm. state_after ?L 5 = Inr sm \<and> current_ref sm \<notin> set (buffer sm) \<and>
      buffer sm = filter (\<lambda>l. l \<noteq> [] \<and> l \<noteq> current_ref sm)
        (map strip (take (5 - Suc 0) (drop (Suc 0) ?L)))"
    by blast
  from r1 r2 show ?thesis by (rule conjI)
qed

end
